theory Spec2Isabelle
  imports Main "HOL-Library.Word"
begin

section \<open>Python values and failures\<close>

text \<open>
  The simulator is Python. Its integers are unbounded (\<open>int\<close>), a \<open>bytearray\<close> is a list
  of bytes (\<open>8 word\<close>), and every exception the code can raise is a value of \<open>error\<close>.
  A stateful method returns its outcome together with the state it leaves behind, so
  that the mutations made before an exception stay visible.

  Floating point: the source computes sizes and address fields with \<open>/\<close>, \<open>%\<close>, \<open>//\<close>,
  \<open>math.pow\<close>, \<open>math.floor\<close> and \<open>math.log\<close> on floats. The model uses the exact
  results: integer quotients and remainders, which the float operations give exactly for
  operands below \<open>2^53\<close>, and the integer part of the exact base-2 logarithm. Rounding in
  \<open>math.log\<close> is not modelled.
\<close>

type_synonym byte = "8 word"

datatype error = AssertionError | IndexError | ZeroDivisionError | ValueError

datatype pyval =
    PNone
  | PBool bool
  | PInt int
  | PStr string
  | PList "int list"
  | PDict "(string \<times> pyval) list"

type_synonym details = "string \<rightharpoonup> pyval"

text \<open>Indexing a Python sequence: a negative index counts from the end, anything
  outside \<open>[-len, len)\<close> raises \<open>IndexError\<close>.\<close>

definition py_index :: "'a list \<Rightarrow> int \<Rightarrow> error + nat" where
  "py_index xs i =
     (if 0 \<le> i \<and> i < int (length xs) then Inr (nat i)
      else if i < 0 \<and> - int (length xs) \<le> i then Inr (nat (int (length xs) + i))
      else Inl IndexError)"

definition py_get :: "'a list \<Rightarrow> int \<Rightarrow> error + 'a" where
  "py_get xs i = (case py_index xs i of Inl e \<Rightarrow> Inl e | Inr k \<Rightarrow> Inr (xs ! k))"

definition py_set :: "'a list \<Rightarrow> int \<Rightarrow> 'a \<Rightarrow> error + 'a list" where
  "py_set xs i v = (case py_index xs i of Inl e \<Rightarrow> Inl e | Inr k \<Rightarrow> Inr (xs[k := v]))"

text \<open>\<open>list.pop(i)\<close>, returning the list that remains.\<close>

definition py_pop :: "'a list \<Rightarrow> int \<Rightarrow> error + 'a list" where
  "py_pop xs i =
     (case py_index xs i of Inl e \<Rightarrow> Inl e | Inr k \<Rightarrow> Inr (take k xs @ drop (Suc k) xs))"

text \<open>\<open>range(0, n)\<close>.\<close>

definition py_range :: "int \<Rightarrow> int list" where
  "py_range n = map int [0 ..< nat n]"

text \<open>\<open>int(a / b)\<close>: true division, then truncation towards zero.\<close>

definition int_div :: "int \<Rightarrow> int \<Rightarrow> error + int" where
  "int_div a b =
     (if b = 0 then Inl ZeroDivisionError
      else Inr (sgn a * sgn b * (\<bar>a\<bar> div \<bar>b\<bar>)))"

text \<open>\<open>int(math.log(n, 2))\<close>: a math domain error (\<open>ValueError\<close>) unless \<open>n\<close> is
  positive, else the integer part of the base-2 logarithm.\<close>

fun floor_log2 :: "nat \<Rightarrow> nat" where
  "floor_log2 n = (if n < 2 then 0 else Suc (floor_log2 (n div 2)))"

declare floor_log2.simps [simp del]

definition int_log2 :: "int \<Rightarrow> error + int" where
  "int_log2 n = (if n \<le> 0 then Inl ValueError else Inr (int (floor_log2 (nat n))))"

text \<open>\<open>int(math.pow(2, k))\<close>; a negative exponent gives a fraction below one.\<close>

definition int_pow2 :: "int \<Rightarrow> int" where
  "int_pow2 k = (if k < 0 then 0 else 2 ^ nat k)"

text \<open>\<open>str(n)\<close> for an integer.\<close>

fun str_nat :: "nat \<Rightarrow> string" where
  "str_nat n =
     (if n < 10 then [char_of (48 + n)]
      else str_nat (n div 10) @ [char_of (48 + n mod 10)])"

declare str_nat.simps [simp del]

definition str_int :: "int \<Rightarrow> string" where
  "str_int i = (if i < 0 then CHR ''-'' # str_nat (nat (- i)) else str_nat (nat i))"


section \<open>cache\_block.py\<close>

text \<open>The backing store \<open>memory\<close> is one bytearray shared by the simulator, the cache,
  every set and every block. It is kept once, in the cache, and passed to the methods
  that read or write it.\<close>

record cache_block =
  blk_block_size :: int
  occupied :: bool
  dirty :: bool
  tag :: int
  word :: "byte list"

text \<open>\<open>bytearray(n)\<close> raises \<open>ValueError\<close> for a negative count.\<close>

definition CacheBlock_init :: "int \<Rightarrow> error + cache_block" where
  "CacheBlock_init block_size =
     (case int_div block_size 8 of
        Inl e \<Rightarrow> Inl e
      | Inr bytes_per_block \<Rightarrow>
          if bytes_per_block < 0 then Inl ValueError
          else Inr \<lparr>blk_block_size = block_size, occupied = False, dirty = False,
                    tag = - 1, word = replicate (nat bytes_per_block) 0\<rparr>)"

text \<open>The loop \<open>for i in range(0, 4): self.word[i] = self.memory[address + i]\<close>.\<close>

fun load_word :: "byte list \<Rightarrow> int \<Rightarrow> int list \<Rightarrow> byte list \<Rightarrow> (error + unit) \<times> byte list" where
  "load_word memory address [] w = (Inr (), w)"
| "load_word memory address (i # rest) w =
     (case py_get memory (address + i) of
        Inl e \<Rightarrow> (Inl e, w)
      | Inr v \<Rightarrow>
          (case py_set w i v of
             Inl e \<Rightarrow> (Inl e, w)
           | Inr w' \<Rightarrow> load_word memory address rest w'))"

definition CacheBlock_read_from_memory ::
  "byte list \<Rightarrow> cache_block \<Rightarrow> int \<Rightarrow> int \<Rightarrow> (error + unit) \<times> cache_block" where
  "CacheBlock_read_from_memory memory b address t =
     (let b1 = b\<lparr>occupied := True, tag := t\<rparr> in
      case load_word memory address (py_range 4) (word b1) of
        (r, w) \<Rightarrow> (r, b1\<lparr>word := w\<rparr>))"

definition CacheBlock_read_from_cache :: "cache_block \<Rightarrow> int \<Rightarrow> cache_block" where
  "CacheBlock_read_from_cache b t = b\<lparr>tag := t, occupied := True\<rparr>"

text \<open>The loop \<open>for i in range(0, 4): self.memory[address + i] = self.word[i]\<close>.\<close>

fun store_word :: "byte list \<Rightarrow> int \<Rightarrow> int list \<Rightarrow> byte list \<Rightarrow> (error + unit) \<times> byte list" where
  "store_word w address [] memory = (Inr (), memory)"
| "store_word w address (i # rest) memory =
     (case py_get w i of
        Inl e \<Rightarrow> (Inl e, memory)
      | Inr v \<Rightarrow>
          (case py_set memory (address + i) v of
             Inl e \<Rightarrow> (Inl e, memory)
           | Inr memory' \<Rightarrow> store_word w address rest memory'))"

definition CacheBlock_write_to_memory ::
  "byte list \<Rightarrow> cache_block \<Rightarrow> int \<Rightarrow> (error + unit) \<times> byte list" where
  "CacheBlock_write_to_memory memory b address = store_word (word b) address (py_range 4) memory"

definition CacheBlock_write_to_cache :: "cache_block \<Rightarrow> byte list \<Rightarrow> cache_block" where
  "CacheBlock_write_to_cache b w = b\<lparr>word := w\<rparr>"

definition clear_block :: "cache_block \<Rightarrow> cache_block" where
  "clear_block b = b\<lparr>occupied := False, dirty := False, tag := - 1, word := replicate 4 0\<rparr>"

definition get_word_dec :: "cache_block \<Rightarrow> error + int" where
  "get_word_dec b =
     (case py_get (word b) 0 of Inl e \<Rightarrow> Inl e | Inr w0 \<Rightarrow>
     (case py_get (word b) 1 of Inl e \<Rightarrow> Inl e | Inr w1 \<Rightarrow>
     (case py_get (word b) 2 of Inl e \<Rightarrow> Inl e | Inr w2 \<Rightarrow>
     (case py_get (word b) 3 of Inl e \<Rightarrow> Inl e | Inr w3 \<Rightarrow>
        Inr (uint w0 + 256 * (uint w1 + 256 * (uint w2 + 256 * uint w3)))))))"


section \<open>tag\_queue.py\<close>

record tag_queue =
  queue :: "int list"
  tq_size :: int

definition TagQueue_init :: "int \<Rightarrow> tag_queue" where
  "TagQueue_init n = \<lparr>queue = map (\<lambda>i. - 1) (py_range n), tq_size = n\<rparr>"

text \<open>The search loop of \<open>update_queue\<close>: the first index of \<open>range(0, size)\<close> whose
  entry is the tag.\<close>

fun find_tag :: "int list \<Rightarrow> int \<Rightarrow> int list \<Rightarrow> error + int option" where
  "find_tag q t [] = Inr None"
| "find_tag q t (i # rest) =
     (case py_get q i of
        Inl e \<Rightarrow> Inl e
      | Inr x \<Rightarrow> if x = t then Inr (Some i) else find_tag q t rest)"

definition update_queue :: "tag_queue \<Rightarrow> int \<Rightarrow> (error + bool) \<times> tag_queue" where
  "update_queue tq t =
     (case find_tag (queue tq) t (py_range (tq_size tq)) of
        Inl e \<Rightarrow> (Inl e, tq)
      | Inr (Some i) \<Rightarrow>
          (case py_pop (queue tq) i of
             Inl e \<Rightarrow> (Inl e, tq)
           | Inr q' \<Rightarrow> (Inr True, tq\<lparr>queue := q' @ [t]\<rparr>))
      | Inr None \<Rightarrow>
          (case py_pop (queue tq) 0 of
             Inl e \<Rightarrow> (Inl e, tq)
           | Inr q' \<Rightarrow> (Inr False, tq\<lparr>queue := q' @ [t]\<rparr>)))"

definition get_least_recently_used :: "tag_queue \<Rightarrow> error + int" where
  "get_least_recently_used tq = py_get (queue tq) 0"


section \<open>cache\_set.py\<close>

text \<open>\<open>math.floor(address / block_size)\<close> divides first, so a zero block size raises.\<close>

definition find_range :: "int \<Rightarrow> int \<Rightarrow> error + (int \<times> int)" where
  "find_range address block_size =
     (if block_size = 0 then Inl ZeroDivisionError
      else let lower_limit = block_size * (address div block_size);
               upper_limit = lower_limit + (block_size - 1)
           in Inr (lower_limit, upper_limit))"

record cache_set =
  set_write_back :: bool
  tag_queue :: tag_queue
  blocks :: "cache_block list"
  set_num_blocks :: int
  set_block_size :: int
  set_index :: int
  evicted_tag :: int
  evicted_block_index :: int
  last_write_address :: int

text \<open>A loop \<open>for i in xs: out.append(f(i))\<close> whose body may raise.\<close>

fun collect :: "('a \<Rightarrow> error + 'b) \<Rightarrow> 'a list \<Rightarrow> error + 'b list" where
  "collect f [] = Inr []"
| "collect f (x # xs) =
     (case f x of
        Inl e \<Rightarrow> Inl e
      | Inr y \<Rightarrow> (case collect f xs of Inl e \<Rightarrow> Inl e | Inr ys \<Rightarrow> Inr (y # ys)))"

definition CacheSet_init :: "bool \<Rightarrow> int \<Rightarrow> int \<Rightarrow> int \<Rightarrow> error + cache_set" where
  "CacheSet_init wb num_blocks block_size idx =
     (case collect (\<lambda>i. CacheBlock_init block_size) (py_range num_blocks) of
        Inl e \<Rightarrow> Inl e
      | Inr bs \<Rightarrow>
          Inr \<lparr>set_write_back = wb, tag_queue = TagQueue_init num_blocks, blocks = bs,
               set_num_blocks = num_blocks, set_block_size = block_size, set_index = idx,
               evicted_tag = - 1, evicted_block_index = - 1, last_write_address = - 1\<rparr>)"

text \<open>\<open>find_free_block\<close> returns the block object; the model returns its position.\<close>

fun first_free :: "cache_block list \<Rightarrow> nat option" where
  "first_free [] = None"
| "first_free (b # bs) = (if \<not> occupied b then Some 0 else map_option Suc (first_free bs))"

definition find_free_block :: "cache_set \<Rightarrow> nat option" where
  "find_free_block s = first_free (blocks s)"

fun find_block_from :: "cache_block list \<Rightarrow> int \<Rightarrow> int \<Rightarrow> int" where
  "find_block_from [] t i = - 1"
| "find_block_from (b # bs) t i =
     (if tag b = t \<and> occupied b then i else find_block_from bs t (i + 1))"

definition find_block_index :: "cache_set \<Rightarrow> int \<Rightarrow> int" where
  "find_block_index s t = find_block_from (blocks s) t 0"

definition add_basic_operation_details ::
  "cache_set \<Rightarrow> details \<Rightarrow> int \<Rightarrow> int \<Rightarrow> int \<Rightarrow> error + details" where
  "add_basic_operation_details s operation_details address offset t =
     (case find_range address (set_block_size s) of
        Inl e \<Rightarrow> Inl e
      | Inr block_range \<Rightarrow>
          Inr (operation_details ++
               [''address'' \<mapsto> PInt address,
                ''offset'' \<mapsto> PInt offset,
                ''set_index'' \<mapsto> PInt (set_index s),
                ''tag'' \<mapsto> PInt t,
                ''block_range'' \<mapsto> PDict [(''min'', PStr (str_int (fst block_range))),
                                             (''max'', PStr (str_int (snd block_range)))],
                ''tag_queue'' \<mapsto> PList (queue (tag_queue s))]))"

text \<open>\<open>replace_cache_block\<close> returns the position of the block it refilled and the
  operation details it extended in place. A dirty victim is written to \<open>address\<close>, the
  address of the access that evicts it.\<close>

definition replace_cache_block ::
  "byte list \<Rightarrow> cache_set \<Rightarrow> int \<Rightarrow> int \<Rightarrow> details \<Rightarrow>
   (error + nat \<times> details) \<times> byte list \<times> cache_set" where
  "replace_cache_block memory s address t operation_details =
     (case get_least_recently_used (tag_queue s) of
        Inl e \<Rightarrow> (Inl e, memory, s)
      | Inr lru_tag \<Rightarrow>
          let lru_index = find_block_index s lru_tag in
          (case py_index (blocks s) lru_index of
             Inl e \<Rightarrow> (Inl e, memory, s)
           | Inr k \<Rightarrow>
               let lru_block = blocks s ! k in
               (case (if set_write_back s \<and> dirty lru_block then
                        (case CacheBlock_write_to_memory memory lru_block address of
                           (Inl e, memory') \<Rightarrow> (Inl e, memory', s)
                         | (Inr u, memory') \<Rightarrow>
                             let s1 = s\<lparr>last_write_address := address\<rparr> in
                             (case find_range address (set_block_size s1) of
                                Inl e \<Rightarrow> (Inl e, memory', s1)
                              | Inr r \<Rightarrow>
                                  (Inr (operation_details(''write_back'' \<mapsto>
                                          PDict [(''lower_limit'', PInt (fst r)),
                                                 (''upper_limit'', PInt (snd r))])),
                                   memory', s1)))
                      else (Inr (operation_details(''write_back'' \<mapsto> PNone)), memory, s)) of
                  (Inl e, memory', s') \<Rightarrow> (Inl e, memory', s')
                | (Inr od, memory', s') \<Rightarrow>
                    (case CacheBlock_read_from_memory memory' (clear_block lru_block) address t of
                       (Inl e, b') \<Rightarrow> (Inl e, memory', s'\<lparr>blocks := (blocks s')[k := b']\<rparr>)
                     | (Inr u, b') \<Rightarrow>
                         (Inr (k, od(''replace_details'' \<mapsto>
                                      PDict [(''evict_tag'', PInt lru_tag),
                                             (''evict_index'', PInt lru_index)])),
                          memory', s'\<lparr>blocks := (blocks s')[k := b']\<rparr>)))))"

definition CacheSet_read_from_memory ::
  "byte list \<Rightarrow> cache_set \<Rightarrow> int \<Rightarrow> int \<Rightarrow> int \<Rightarrow> (error + details) \<times> byte list \<times> cache_set" where
  "CacheSet_read_from_memory memory s0 address t offset =
     (let s = s0\<lparr>last_write_address := - 1\<rparr> in
      case (case find_free_block s of
              Some k \<Rightarrow>
                (case CacheBlock_read_from_memory memory (blocks s ! k) address t of
                   (Inl e, b') \<Rightarrow> (Inl e, memory, s\<lparr>blocks := (blocks s)[k := b']\<rparr>)
                 | (Inr u, b') \<Rightarrow>
                     (Inr (k, [''replace_details'' \<mapsto> PNone]), memory,
                      s\<lparr>blocks := (blocks s)[k := b'], evicted_tag := - 1,
                        evicted_block_index := - 1\<rparr>))
            | None \<Rightarrow> replace_cache_block memory s address t Map.empty) of
        (Inl e, memory', s') \<Rightarrow> (Inl e, memory', s')
      | (Inr (block_accessed, od), memory', s') \<Rightarrow>
          (case update_queue (tag_queue s') t of
             (Inl e, tq') \<Rightarrow> (Inl e, memory', s'\<lparr>tag_queue := tq'\<rparr>)
           | (Inr present, tq') \<Rightarrow>
               let s2 = s'\<lparr>tag_queue := tq'\<rparr> in
               (case get_word_dec (blocks s2 ! block_accessed) of
                  Inl e \<Rightarrow> (Inl e, memory', s2)
                | Inr w \<Rightarrow>
                    (case add_basic_operation_details s2 (od(''word'' \<mapsto> PInt w)) address offset t of
                       Inl e \<Rightarrow> (Inl e, memory', s2)
                     | Inr d \<Rightarrow> (Inr d, memory', s2)))))"

definition CacheSet_read_from_cache ::
  "cache_set \<Rightarrow> int \<Rightarrow> int \<Rightarrow> int \<Rightarrow> int \<Rightarrow> (error + details) \<times> cache_set" where
  "CacheSet_read_from_cache s address t block_index offset =
     (case py_index (blocks s) block_index of
        Inl e \<Rightarrow> (Inl e, s)
      | Inr k \<Rightarrow>
          let s1 = s\<lparr>blocks := (blocks s)[k := CacheBlock_read_from_cache (blocks s ! k) t]\<rparr> in
          (case update_queue (tag_queue s1) t of
             (Inl e, tq') \<Rightarrow> (Inl e, s1\<lparr>tag_queue := tq'\<rparr>)
           | (Inr present, tq') \<Rightarrow>
               let s2 = s1\<lparr>tag_queue := tq'\<rparr> in
               (case get_word_dec (blocks s2 ! k) of
                  Inl e \<Rightarrow> (Inl e, s2)
                | Inr w \<Rightarrow>
                    (case add_basic_operation_details s2
                            [''word'' \<mapsto> PInt w, ''replace_details'' \<mapsto> PNone] address offset t of
                       Inl e \<Rightarrow> (Inl e, s2)
                     | Inr d \<Rightarrow> (Inr d, s2)))))"

definition write_to_cache_wb :: "cache_set \<Rightarrow> int \<Rightarrow> byte list \<Rightarrow> (error + details) \<times> cache_set" where
  "write_to_cache_wb s block_index w =
     (case py_index (blocks s) block_index of
        Inl e \<Rightarrow> (Inl e, s)
      | Inr k \<Rightarrow>
          let b = (CacheBlock_write_to_cache (blocks s ! k) w)\<lparr>dirty := True\<rparr>;
              s' = s\<lparr>blocks := (blocks s)[k := b]\<rparr>
          in (case get_word_dec b of
                Inl e \<Rightarrow> (Inl e, s')
              | Inr v \<Rightarrow> (Inr [''word'' \<mapsto> PInt v, ''write_back'' \<mapsto> PBool True], s')))"

definition write_to_cache_wt ::
  "byte list \<Rightarrow> cache_set \<Rightarrow> int \<Rightarrow> int \<Rightarrow> byte list \<Rightarrow> (error + details) \<times> byte list \<times> cache_set" where
  "write_to_cache_wt memory s address block_index w =
     (case py_index (blocks s) block_index of
        Inl e \<Rightarrow> (Inl e, memory, s)
      | Inr k \<Rightarrow>
          let b = CacheBlock_write_to_cache (blocks s ! k) w;
              s' = s\<lparr>blocks := (blocks s)[k := b]\<rparr>
          in (case CacheBlock_write_to_memory memory b address of
                (Inl e, memory') \<Rightarrow> (Inl e, memory', s')
              | (Inr u, memory') \<Rightarrow>
                  (case get_word_dec b of
                     Inl e \<Rightarrow> (Inl e, memory', s')
                   | Inr v \<Rightarrow>
                       (Inr [''word'' \<mapsto> PInt v, ''write_back'' \<mapsto> PBool False], memory', s'))))"

definition CacheSet_write_to_cache ::
  "byte list \<Rightarrow> cache_set \<Rightarrow> int \<Rightarrow> int \<Rightarrow> int \<Rightarrow> int \<Rightarrow> byte list \<Rightarrow> bool \<Rightarrow>
   (error + details) \<times> byte list \<times> cache_set" where
  "CacheSet_write_to_cache memory s address t block_index offset w wb =
     (case add_basic_operation_details s Map.empty address offset t of
        Inl e \<Rightarrow> (Inl e, memory, s)
      | Inr operation_details \<Rightarrow>
          if wb then
            (case write_to_cache_wb s block_index w of
               (Inl e, s') \<Rightarrow> (Inl e, memory, s')
             | (Inr d, s') \<Rightarrow> (Inr (operation_details ++ d), memory, s'))
          else
            (case write_to_cache_wt memory s address block_index w of
               (Inl e, memory', s') \<Rightarrow> (Inl e, memory', s')
             | (Inr d, memory', s') \<Rightarrow> (Inr (operation_details ++ d), memory', s')))"


section \<open>cache.py\<close>

record cache =
  memory :: "byte list"
  address_size :: int
  cache_size :: int
  block_size :: int
  associativity :: int
  write_back :: bool
  num_blocks :: int
  num_sets :: int
  num_blocks_per_set :: int
  index_size :: int
  block_offset_size :: int
  tag_size :: int
  sets :: "cache_set list"

definition Cache_init :: "byte list \<Rightarrow> int \<Rightarrow> int \<Rightarrow> int \<Rightarrow> int \<Rightarrow> bool \<Rightarrow> error + cache" where
  "Cache_init mem a_size c_size b_size assoc wb =
     (case int_div c_size b_size of Inl e \<Rightarrow> Inl e | Inr n_blocks \<Rightarrow>
     (case int_div n_blocks assoc of Inl e \<Rightarrow> Inl e | Inr n_sets \<Rightarrow>
     (case int_div n_blocks n_sets of Inl e \<Rightarrow> Inl e | Inr n_blocks_per_set \<Rightarrow>
     (case int_log2 n_sets of Inl e \<Rightarrow> Inl e | Inr i_size \<Rightarrow>
     (case int_log2 b_size of Inl e \<Rightarrow> Inl e | Inr o_size \<Rightarrow>
     (case collect (\<lambda>i. CacheSet_init wb n_blocks_per_set b_size i) (py_range n_sets) of
        Inl e \<Rightarrow> Inl e
      | Inr ss \<Rightarrow>
          Inr \<lparr>memory = mem, address_size = a_size, cache_size = c_size, block_size = b_size,
               associativity = assoc, write_back = wb, num_blocks = n_blocks,
               num_sets = n_sets, num_blocks_per_set = n_blocks_per_set,
               index_size = i_size, block_offset_size = o_size,
               tag_size = a_size - (i_size + o_size), sets = ss\<rparr>))))))"

text \<open>\<open>x % math.pow(2, k)\<close> and \<open>x // math.pow(2, k)\<close> for an integer \<open>x\<close>; for a negative
  \<open>k\<close> the divisor is the fraction \<open>1 / 2^(-k)\<close>.\<close>

definition mod_pow2 :: "int \<Rightarrow> int \<Rightarrow> int" where
  "mod_pow2 x k = (if 0 \<le> k then x mod 2 ^ nat k else 0)"

definition floordiv_pow2 :: "int \<Rightarrow> int \<Rightarrow> int" where
  "floordiv_pow2 x k = (if 0 \<le> k then x div 2 ^ nat k else x * 2 ^ nat (- k))"

definition split_address :: "cache \<Rightarrow> int \<Rightarrow> int \<times> int \<times> int" where
  "split_address c address =
     (let block_offset = mod_pow2 address (block_offset_size c);
          address_split = floordiv_pow2 address (block_offset_size c);
          index = mod_pow2 address_split (index_size c);
          t = floordiv_pow2 address_split (index_size c)
      in (block_offset, index, t))"

definition Cache_read :: "cache \<Rightarrow> int \<Rightarrow> (error + details) \<times> cache" where
  "Cache_read c address =
     (case split_address c address of
        (block_offset, index, t) \<Rightarrow>
          (case py_index (sets c) index of
             Inl e \<Rightarrow> (Inl e, c)
           | Inr k \<Rightarrow>
               let target_set = sets c ! k;
                   block_index = find_block_index target_set t
               in if block_index = - 1 then
                    (case CacheSet_read_from_memory (memory c) target_set address t block_offset of
                       (Inl e, memory', s') \<Rightarrow>
                         (Inl e, c\<lparr>memory := memory', sets := (sets c)[k := s']\<rparr>)
                     | (Inr d, memory', s') \<Rightarrow>
                         (Inr ([''hit_or_miss'' \<mapsto> PStr ''miss''] ++ d),
                          c\<lparr>memory := memory', sets := (sets c)[k := s']\<rparr>))
                  else
                    (case CacheSet_read_from_cache target_set address t block_index block_offset of
                       (Inl e, s') \<Rightarrow> (Inl e, c\<lparr>sets := (sets c)[k := s']\<rparr>)
                     | (Inr d, s') \<Rightarrow>
                         (Inr ([''hit_or_miss'' \<mapsto> PStr ''hit''] ++ d),
                          c\<lparr>sets := (sets c)[k := s']\<rparr>))))"

text \<open>On a miss \<open>write\<close> discards the details of the fill and goes on with the
  \<open>block_index\<close> it looked up before the fill, which is \<open>-1\<close>.\<close>

definition Cache_write :: "cache \<Rightarrow> int \<Rightarrow> byte list \<Rightarrow> (error + details) \<times> cache" where
  "Cache_write c address w =
     (case split_address c address of
        (block_offset, index, t) \<Rightarrow>
          (case py_index (sets c) index of
             Inl e \<Rightarrow> (Inl e, c)
           | Inr k \<Rightarrow>
               let target_set = sets c ! k;
                   block_index = find_block_index target_set t
               in (case (if block_index = - 1 then
                           (case CacheSet_read_from_memory (memory c) target_set address t block_offset of
                              (Inl e, memory', s') \<Rightarrow> (Inl e, memory', s')
                            | (Inr d, memory', s') \<Rightarrow>
                                (Inr [''hit_or_miss'' \<mapsto> PStr ''miss''], memory', s'))
                         else (Inr [''hit_or_miss'' \<mapsto> PStr ''hit''], memory c, target_set)) of
                     (Inl e, memory1, s1) \<Rightarrow>
                       (Inl e, c\<lparr>memory := memory1, sets := (sets c)[k := s1]\<rparr>)
                   | (Inr operation_details, memory1, s1) \<Rightarrow>
                       (case CacheSet_write_to_cache memory1 s1 address t block_index block_offset w
                               (write_back c) of
                          (Inl e, memory2, s2) \<Rightarrow>
                            (Inl e, c\<lparr>memory := memory2, sets := (sets c)[k := s2]\<rparr>)
                        | (Inr d, memory2, s2) \<Rightarrow>
                            (Inr (operation_details ++ d),
                             c\<lparr>memory := memory2, sets := (sets c)[k := s2]\<rparr>)))))"


section \<open>cache\_sim.py\<close>

definition int_to_bytearray :: "int \<Rightarrow> byte list" where
  "int_to_bytearray num =
     [word_of_int (num mod 256),
      word_of_int (num div 256 mod 256),
      word_of_int (num div 256 div 256 mod 256),
      word_of_int (num div 256 div 256 div 256 mod 256)]"

text \<open>The simulator's \<open>memory\<close> is the bytearray it hands to the cache: \<open>memory (cache sim)\<close>.
  \<open>read\<close> and \<open>write\<close> print a rendering of the operation details and return nothing;
  the model returns the details that are printed, after the operation type.\<close>

record cache_sim =
  sim_address_size :: int
  sim_cache_size :: int
  sim_block_size :: int
  sim_associativity :: int
  sim_write_back :: bool
  memory_size :: int
  cache :: cache

text \<open>The loop that fills the memory: word \<open>i\<close> at address \<open>i\<close>, for \<open>i\<close> in
  \<open>range(0, memory_size, 4)\<close>.\<close>

definition py_range4 :: "int \<Rightarrow> int list" where
  "py_range4 n = map (\<lambda>k. 4 * int k) [0 ..< nat ((n + 3) div 4)]"

fun fill_memory :: "int list \<Rightarrow> byte list \<Rightarrow> error + byte list" where
  "fill_memory [] mem = Inr mem"
| "fill_memory (i # rest) mem =
     (case store_word (int_to_bytearray i) i (py_range 4) mem of
        (Inl e, mem') \<Rightarrow> Inl e
      | (Inr u, mem') \<Rightarrow> fill_memory rest mem')"

definition CacheSim_init :: "int \<Rightarrow> int \<Rightarrow> int \<Rightarrow> int \<Rightarrow> bool \<Rightarrow> error + cache_sim" where
  "CacheSim_init a_size c_size b_size assoc wb =
     (let m_size = int_pow2 a_size in
      case fill_memory (py_range4 m_size) (replicate (nat m_size) 0) of
        Inl e \<Rightarrow> Inl e
      | Inr mem \<Rightarrow>
          (case Cache_init mem a_size c_size b_size assoc wb of
             Inl e \<Rightarrow> Inl e
           | Inr c \<Rightarrow>
               Inr \<lparr>sim_address_size = a_size, sim_cache_size = c_size,
                    sim_block_size = b_size, sim_associativity = assoc,
                    sim_write_back = wb, memory_size = m_size, cache = c\<rparr>))"

definition CacheSim_read :: "cache_sim \<Rightarrow> int \<Rightarrow> (error + string \<times> details) \<times> cache_sim" where
  "CacheSim_read sim address =
     (if address mod 4 \<noteq> 0 then (Inl AssertionError, sim)
      else if \<not> (0 \<le> address \<and> address \<le> memory_size sim) then (Inl AssertionError, sim)
      else (case Cache_read (cache sim) address of
              (Inl e, c') \<Rightarrow> (Inl e, sim\<lparr>cache := c'\<rparr>)
            | (Inr d, c') \<Rightarrow> (Inr (''read'', d), sim\<lparr>cache := c'\<rparr>)))"

definition CacheSim_write :: "cache_sim \<Rightarrow> int \<Rightarrow> int \<Rightarrow> (error + string \<times> details) \<times> cache_sim" where
  "CacheSim_write sim address w =
     (if address mod 4 \<noteq> 0 then (Inl AssertionError, sim)
      else if \<not> (0 \<le> address \<and> address \<le> memory_size sim) then (Inl AssertionError, sim)
      else (case Cache_write (cache sim) address (int_to_bytearray w) of
              (Inl e, c') \<Rightarrow> (Inl e, sim\<lparr>cache := c'\<rparr>)
            | (Inr d, c') \<Rightarrow> (Inr (''write'', d), sim\<lparr>cache := c'\<rparr>)))"


section \<open>main.py: a cache simulator driven by a script of reads and writes\<close>

datatype operation = Read int | Write int int

fun run_op :: "cache_sim \<Rightarrow> operation \<Rightarrow> (error + string \<times> details) \<times> cache_sim" where
  "run_op sim (Read a) = CacheSim_read sim a"
| "run_op sim (Write a w) = CacheSim_write sim a w"

text \<open>The script stops at the first exception; the state is the one the exception left.\<close>

fun run_ops :: "cache_sim \<Rightarrow> operation list \<Rightarrow> (error + string \<times> details) list \<times> cache_sim" where
  "run_ops sim [] = ([], sim)"
| "run_ops sim (op # ops) =
     (case run_op sim op of
        (Inl e, sim') \<Rightarrow> ([Inl e], sim')
      | (Inr d, sim') \<Rightarrow> (case run_ops sim' ops of (rs, sim'') \<Rightarrow> (Inr d # rs, sim'')))"


section \<open>Observations and reference states\<close>

text \<open>The simulator as constructed, when construction succeeds.\<close>

definition booted :: "int \<Rightarrow> int \<Rightarrow> int \<Rightarrow> int \<Rightarrow> bool \<Rightarrow> cache_sim" where
  "booted a_size c_size b_size assoc wb = projr (CacheSim_init a_size c_size b_size assoc wb)"

text \<open>What an operation left behind: the exception it raised, an entry of its result
  record, the four bytes of the backing store at an address, the blocks and the tracker of
  a set.\<close>

definition raised :: "error + 'a \<Rightarrow> error option" where
  "raised r = (case r of Inl e \<Rightarrow> Some e | Inr x \<Rightarrow> None)"

definition field :: "error + string \<times> details \<Rightarrow> string \<Rightarrow> pyval option" where
  "field r key = (case r of Inl e \<Rightarrow> None | Inr (n, d) \<Rightarrow> d key)"

definition memory_word :: "cache_sim \<Rightarrow> nat \<Rightarrow> byte list" where
  "memory_word sim a = take 4 (drop a (memory (cache sim)))"

definition set_blocks :: "cache_sim \<Rightarrow> nat \<Rightarrow> cache_block list" where
  "set_blocks sim k = blocks (sets (cache sim) ! k)"

definition set_queue :: "cache_sim \<Rightarrow> nat \<Rightarrow> int list" where
  "set_queue sim k = queue (tag_queue (sets (cache sim) ! k))"

text \<open>The block and the set that the constructors build.\<close>

definition fresh_block :: "int \<Rightarrow> cache_block" where
  "fresh_block b_size =
     \<lparr>blk_block_size = b_size, occupied = False, dirty = False, tag = - 1,
      word = replicate (nat (b_size div 8)) 0\<rparr>"

definition fresh_set :: "bool \<Rightarrow> int \<Rightarrow> int \<Rightarrow> int \<Rightarrow> cache_set" where
  "fresh_set wb n b_size idx =
     \<lparr>set_write_back = wb, tag_queue = \<lparr>queue = replicate (nat n) (- 1), tq_size = n\<rparr>,
      blocks = replicate (nat n) (fresh_block b_size),
      set_num_blocks = n, set_block_size = b_size, set_index = idx,
      evicted_tag = - 1, evicted_block_index = - 1, last_write_address = - 1\<rparr>"

text \<open>No block of a list, and no block of a cache, is dirty.\<close>

definition clean_blocks :: "cache_block list \<Rightarrow> bool" where
  "clean_blocks bs \<longleftrightarrow> (\<forall>b \<in> set bs. \<not> dirty b)"

definition all_clean :: "cache \<Rightarrow> bool" where
  "all_clean c \<longleftrightarrow> (\<forall>s \<in> set (sets c). clean_blocks (blocks s))"

text \<open>The tracker without its leading sentinels, and the tags of the occupied blocks of a
  set, in block order.\<close>

definition tracked :: "int list \<Rightarrow> int list" where
  "tracked q = dropWhile (\<lambda>t. t = - 1) q"

definition occupied_tags :: "cache_block list \<Rightarrow> int list" where
  "occupied_tags bs = map tag (filter occupied bs)"

text \<open>
  The state of a set that every completed access keeps: the tracker is as long as the set
  has blocks, every word has at least four bytes, the sentinels of the tracker come first,
  and after them come, without repetition, exactly the tags of the occupied blocks, which
  are pairwise different.
\<close>

definition wf_set :: "cache_set \<Rightarrow> bool" where
  "wf_set s \<longleftrightarrow>
     blocks s \<noteq> [] \<and>
     tq_size (tag_queue s) = int (length (blocks s)) \<and>
     length (queue (tag_queue s)) = length (blocks s) \<and>
     set_block_size s \<noteq> 0 \<and>
     (\<forall>b \<in> set (blocks s). 4 \<le> length (word b)) \<and>
     - 1 \<notin> set (tracked (queue (tag_queue s))) \<and>
     distinct (tracked (queue (tag_queue s))) \<and>
     distinct (occupied_tags (blocks s)) \<and>
     set (tracked (queue (tag_queue s))) = set (occupied_tags (blocks s))"

text \<open>The cache: the index of every address selects a set, and every set is as above.\<close>

definition wf_cache :: "cache \<Rightarrow> bool" where
  "wf_cache c \<longleftrightarrow>
     0 \<le> block_offset_size c \<and> 0 \<le> index_size c \<and>
     2 ^ nat (index_size c) \<le> int (length (sets c)) \<and>
     (\<forall>s \<in> set (sets c). wf_set s)"

text \<open>The tag of an address is resident in its set, most recently touched, with word \<open>v\<close>.\<close>

definition resident :: "cache \<Rightarrow> int \<Rightarrow> int \<Rightarrow> bool" where
  "resident c a v \<longleftrightarrow>
     (case split_address c a of
        (off, idx, t) \<Rightarrow>
          find_block_index (sets c ! nat idx) t \<noteq> - 1 \<and>
          last (queue (tag_queue (sets c ! nat idx))) = t \<and>
          get_word_dec (blocks (sets c ! nat idx) ! nat (find_block_index (sets c ! nat idx) t)) = Inr v)"

text \<open>The simulator: the memory has the recorded size, a multiple of four.\<close>

definition wf_sim :: "cache_sim \<Rightarrow> bool" where
  "wf_sim sim \<longleftrightarrow>
     wf_cache (cache sim) \<and> memory_size sim = int (length (memory (cache sim))) \<and>
     memory_size sim mod 4 = 0"

text \<open>
  An address the specification accepts, the address of an operation, a configuration
  whose blocks hold a four-byte word and whose memory holds whole words, and the state the
  simulator reaches from construction by a script.
\<close>

definition valid_address :: "int \<Rightarrow> int \<Rightarrow> bool" where
  "valid_address a_size a \<longleftrightarrow> 0 \<le> a \<and> a < 2 ^ nat a_size \<and> a mod 4 = 0"

fun op_address :: "operation \<Rightarrow> int" where
  "op_address (Read a) = a"
| "op_address (Write a w) = a"

definition config_ok :: "int \<Rightarrow> int \<Rightarrow> int \<Rightarrow> int \<Rightarrow> bool" where
  "config_ok a_size c_size b_size assoc \<longleftrightarrow>
     2 \<le> a_size \<and> 32 \<le> b_size \<and> 1 \<le> assoc \<and> b_size * assoc \<le> c_size"

definition reached :: "int \<Rightarrow> int \<Rightarrow> int \<Rightarrow> int \<Rightarrow> bool \<Rightarrow> operation list \<Rightarrow> cache_sim" where
  "reached a_size c_size b_size assoc wb ops = snd (run_ops (booted a_size c_size b_size assoc wb) ops)"

section \<open>Construction\<close>

lemma int_div_pos: "0 \<le> a \<Longrightarrow> 0 < b \<Longrightarrow> int_div a b = Inr (a div b)"
  by (cases "a = 0") (simp_all add: int_div_def)



lemma floor_log2_le: "0 < n \<Longrightarrow> 2 ^ floor_log2 n \<le> n"
proof (induction n rule: floor_log2.induct)
  case (1 n)
  show ?case
  proof (cases "n < 2")
    case True
    with 1 show ?thesis by (subst floor_log2.simps) simp
  next
    case False
    with 1 have "2 ^ floor_log2 (n div 2) \<le> n div 2" by simp
    then have "2 * 2 ^ floor_log2 (n div 2) \<le> n" by linarith
    with False show ?thesis by (subst floor_log2.simps) simp
  qed
qed

lemma int_log2_pos: "0 < n \<Longrightarrow> int_log2 n = Inr (int (floor_log2 (nat n)))"
  by (simp add: int_log2_def)

lemma collect_map: "(\<And>x. x \<in> set xs \<Longrightarrow> f x = Inr (g x)) \<Longrightarrow> collect f xs = Inr (map g xs)"
  by (induction xs) simp_all

lemma CacheBlock_init_pos: "0 < b_size \<Longrightarrow> CacheBlock_init b_size = Inr (fresh_block b_size)"
  by (simp add: CacheBlock_init_def fresh_block_def int_div_pos pos_imp_zdiv_nonneg_iff)

lemma map_const_replicate: "map (\<lambda>i. c) xs = replicate (length xs) c"
  by (induction xs) simp_all

lemma CacheSet_init_pos:
  "0 < b_size \<Longrightarrow> CacheSet_init wb n b_size idx = Inr (fresh_set wb n b_size idx)"
  by (simp add: CacheSet_init_def fresh_set_def TagQueue_init_def
      collect_map [where g = "\<lambda>i. fresh_block b_size"] CacheBlock_init_pos
      map_const_replicate py_range_def)

lemma Cache_init_ok:
  assumes "0 < b_size" "0 < assoc" "b_size * assoc \<le> c_size"
  shows "Cache_init mem a_size c_size b_size assoc wb =
     Inr \<lparr>memory = mem, address_size = a_size, cache_size = c_size, block_size = b_size,
          associativity = assoc, write_back = wb, num_blocks = c_size div b_size,
          num_sets = c_size div b_size div assoc,
          num_blocks_per_set = c_size div b_size div (c_size div b_size div assoc),
          index_size = int (floor_log2 (nat (c_size div b_size div assoc))),
          block_offset_size = int (floor_log2 (nat b_size)),
          tag_size = a_size - (int (floor_log2 (nat (c_size div b_size div assoc)))
                                + int (floor_log2 (nat b_size))),
          sets = map (fresh_set wb (c_size div b_size div (c_size div b_size div assoc)) b_size)
                     (py_range (c_size div b_size div assoc))\<rparr>"
proof -
  have cs: "0 \<le> c_size" using assms
    by (meson less_le_trans mult_pos_pos not_le order.strict_implies_order)
  have nb: "assoc \<le> c_size div b_size"
    using assms by (metis mult.commute pos_imp_zdiv_nonneg_iff zdiv_mono1 nonzero_mult_div_cancel_left less_irrefl)
  then have nb0: "0 \<le> c_size div b_size" using assms by linarith
  have ns: "1 \<le> c_size div b_size div assoc"
    using nb assms(2) by (metis div_self less_irrefl zdiv_mono1)
  show ?thesis
    using assms cs nb0 ns
    by (simp add: Cache_init_def int_div_pos int_log2_pos
        collect_map [where g = "fresh_set wb (c_size div b_size div (c_size div b_size div assoc)) b_size"]
        CacheSet_init_pos)
qed

lemma Cache_init_too_small:
  assumes "0 < b_size" "0 < assoc" "0 \<le> c_size" "c_size < b_size * assoc"
  shows "Cache_init mem a_size c_size b_size assoc wb = Inl ZeroDivisionError"
proof -
  have nb0: "0 \<le> c_size div b_size" using assms by (simp add: pos_imp_zdiv_nonneg_iff)
  have "c_size div b_size < assoc"
  proof (rule ccontr)
    assume "\<not> c_size div b_size < assoc"
    then have "b_size * assoc \<le> b_size * (c_size div b_size)"
      using assms(1) by (simp add: mult_left_mono)
    moreover have "b_size * (c_size div b_size) + c_size mod b_size = c_size"
      by (rule mult_div_mod_eq)
    moreover have "0 \<le> c_size mod b_size" using assms(1) by simp
    ultimately show False using assms(4) by linarith
  qed
  hence "c_size div b_size div assoc = 0" using nb0 by simp 
  thus ?thesis using assms nb0 by (simp add: Cache_init_def int_div_pos) (simp add: int_div_def)
qed


text \<open>
  C7. Claimed: a configuration whose \<open>num_sets\<close> or \<open>block_size\<close> is not a power of two,
  whose \<open>cache_size\<close> is not divisible into blocks, or whose tag width is negative is
  refused at construction. The constructor checks none of this. Here a cache of 150 bits
  with 48-bit blocks and 4-bit addresses is built: three sets, a block size that is not a
  power of two, a cache size that the block size does not divide, and a tag width of -2.
\<close>

theorem Cache_init_accepts_invalid_configuration:
  "\<not> isl (Cache_init (replicate 16 0) 4 150 48 1 True) \<and>
   num_sets (projr (Cache_init (replicate 16 0) 4 150 48 1 True)) = 3 \<and>
   length (sets (projr (Cache_init (replicate 16 0) 4 150 48 1 True))) = 3 \<and>
   block_size (projr (Cache_init (replicate 16 0) 4 150 48 1 True)) = 48 \<and>
   tag_size (projr (Cache_init (replicate 16 0) 4 150 48 1 True)) = - 2 \<and>
   150 mod (48 * 1) \<noteq> (0::int)"
  by code_simp

text \<open>
  C7, amended. Construction fails, with \<open>ZeroDivisionError\<close> and without returning a
  cache, when the block size is zero, the associativity is zero, or the cache holds fewer
  blocks than the associativity (so that \<open>num_sets\<close> is zero). Every configuration with
  a positive block size, a positive associativity and room for at least one set is
  built, with \<open>cache_size div block_size div associativity\<close> sets, whatever the
  divisibility, the powers of two and the tag width.
\<close>

theorem Cache_init_unvalidated:
  "(0 < b_size \<and> 0 < assoc \<and> b_size * assoc \<le> c_size \<longrightarrow>
      \<not> isl (Cache_init mem a_size c_size b_size assoc wb) \<and>
      num_sets (projr (Cache_init mem a_size c_size b_size assoc wb)) = c_size div b_size div assoc \<and>
      length (sets (projr (Cache_init mem a_size c_size b_size assoc wb))) = nat (c_size div b_size div assoc)) \<and>
   (b_size = 0 \<or> assoc = 0 \<or> (0 < b_size \<and> 0 < assoc \<and> 0 \<le> c_size \<and> c_size < b_size * assoc) \<longrightarrow>
      Cache_init mem a_size c_size b_size assoc wb = Inl ZeroDivisionError)"
proof (intro conjI impI)
  assume h: "0 < b_size \<and> 0 < assoc \<and> b_size * assoc \<le> c_size"
  note ok = Cache_init_ok [of b_size assoc c_size mem a_size wb]
  from h ok show "\<not> isl (Cache_init mem a_size c_size b_size assoc wb)" by simp
  from h ok show "num_sets (projr (Cache_init mem a_size c_size b_size assoc wb)) = c_size div b_size div assoc" by simp
  from h ok show "length (sets (projr (Cache_init mem a_size c_size b_size assoc wb))) = nat (c_size div b_size div assoc)"
    by (simp add: py_range_def)
next
  assume "b_size = 0 \<or> assoc = 0 \<or> (0 < b_size \<and> 0 < assoc \<and> 0 \<le> c_size \<and> c_size < b_size * assoc)"
  then consider "b_size = 0" | "b_size \<noteq> 0" "assoc = 0" | "0 < b_size \<and> 0 < assoc \<and> 0 \<le> c_size \<and> c_size < b_size * assoc"
    by blast
  then show "Cache_init mem a_size c_size b_size assoc wb = Inl ZeroDivisionError"
  proof cases
    case 1
    then show ?thesis by (simp add: Cache_init_def int_div_def)
  next
    case 2
    then show ?thesis by (simp add: Cache_init_def int_div_def)
  next
    case 3
    then show ?thesis by (simp add: Cache_init_too_small)
  qed
qed


text \<open>The amended C7 at two configurations: one that is built though the block size is
  not a power of two, one that is refused because no set fits.\<close>

theorem Cache_init_unvalidated_witness:
  "\<not> isl (Cache_init [] 4 150 48 1 True) \<and>
   num_sets (projr (Cache_init [] 4 150 48 1 True)) = 150 div 48 div 1 \<and>
   length (sets (projr (Cache_init [] 4 150 48 1 True))) = nat (150 div 48 div 1) \<and>
   Cache_init [] 16 64 32 4 True = Inl ZeroDivisionError"
  using Cache_init_unvalidated [of 48 1 150 "[]" 4 True]
        Cache_init_unvalidated [of 32 4 64 "[]" 16 True]
  by simp

section \<open>Address decomposition\<close>





section \<open>Write-through mode keeps every block clean\<close>

lemma clean_blocks_update:
  "clean_blocks bs \<Longrightarrow> \<not> dirty v \<Longrightarrow> clean_blocks (bs[k := v])"
  unfolding clean_blocks_def using set_update_subset_insert [of bs k v] by auto

lemma clean_blocks_nth: "clean_blocks bs \<Longrightarrow> k < length bs \<Longrightarrow> \<not> dirty (bs ! k)"
  by (simp add: clean_blocks_def)

lemma py_index_bound: "py_index xs i = Inr k \<Longrightarrow> k < length xs"
  by (auto simp: py_index_def split: if_splits)

lemma first_free_bound: "first_free bs = Some k \<Longrightarrow> k < length bs \<and> \<not> occupied (bs ! k)"
  by (induction bs arbitrary: k) (auto split: if_splits)

lemma dirty_read_from_memory [simp]:
  "dirty (snd (CacheBlock_read_from_memory m b a t)) = dirty b"
  by (simp add: CacheBlock_read_from_memory_def Let_def split: prod.splits)

lemma dirty_clear_block [simp]: "\<not> dirty (clear_block b)"
  by (simp add: clear_block_def)

lemma clean_replace_cache_block:
  assumes "clean_blocks (blocks s)"
  shows "clean_blocks (blocks (snd (snd (replace_cache_block m s a t od))))"
proof -
  have upd: "clean_blocks ((blocks s)[k := snd (CacheBlock_read_from_memory m' (clear_block b) a t)])"
    for k m' b
    using assms by (simp add: clean_blocks_update)
  have upd': "CacheBlock_read_from_memory m' (clear_block b) a t = (r, b') \<Longrightarrow> clean_blocks ((blocks s)[k := b'])"
    for k m' b r b'
    using upd [of k m' b] by simp
  show ?thesis
    using assms
    by (auto simp: replace_cache_block_def Let_def upd' split: sum.splits prod.splits if_splits)
qed

lemma clean_read_from_memory:
  assumes "clean_blocks (blocks s)"
  shows "clean_blocks (blocks (snd (snd (CacheSet_read_from_memory m s a t off))))"
proof -
  have r: "clean_blocks (blocks (snd (snd (replace_cache_block m (s\<lparr>last_write_address := - 1\<rparr>) a t od))))" for od
    using assms by (simp add: clean_replace_cache_block)
  have r': "replace_cache_block m (s\<lparr>last_write_address := - 1\<rparr>) a t od = (x, m', s') \<Longrightarrow> clean_blocks (blocks s')" for od x m' s'
    using r [of od] by simp
  have f: "find_free_block (s\<lparr>last_write_address := - 1\<rparr>) = Some k \<Longrightarrow>
        CacheBlock_read_from_memory m (blocks s ! k) a t = (r, b') \<Longrightarrow> clean_blocks ((blocks s)[k := b'])" for k r b'
  proof -
    assume "find_free_block (s\<lparr>last_write_address := - 1\<rparr>) = Some k"
      and h: "CacheBlock_read_from_memory m (blocks s ! k) a t = (r, b')"
    then have "k < length (blocks s)" by (simp add: find_free_block_def first_free_bound)
    then have "\<not> dirty (blocks s ! k)" using assms by (simp add: clean_blocks_nth)
    then have "\<not> dirty b'" using dirty_read_from_memory [of m "blocks s ! k" a t] h by simp
    then show ?thesis using assms by (simp add: clean_blocks_update)
  qed
  show ?thesis
    by (auto simp: CacheSet_read_from_memory_def Let_def dest: r' f split: sum.splits prod.splits option.splits)
qed

lemma clean_read_from_cache:
  assumes "clean_blocks (blocks s)"
  shows "clean_blocks (blocks (snd (CacheSet_read_from_cache s a t bi off)))"
proof -
  have u: "py_index (blocks s) bi = Inr k \<Longrightarrow>
           clean_blocks ((blocks s)[k := CacheBlock_read_from_cache (blocks s ! k) t])" for k
    using assms
    by (simp add: clean_blocks_update clean_blocks_nth py_index_bound CacheBlock_read_from_cache_def)
  show ?thesis
    using assms
    by (auto simp: CacheSet_read_from_cache_def Let_def u split: sum.splits prod.splits)
qed

lemma clean_write_to_cache_wt:
  assumes "clean_blocks (blocks s)"
  shows "clean_blocks (blocks (snd (snd (write_to_cache_wt m s a bi w))))"
proof -
  have u: "py_index (blocks s) bi = Inr k \<Longrightarrow>
           clean_blocks ((blocks s)[k := CacheBlock_write_to_cache (blocks s ! k) w])" for k
    using assms
    by (simp add: clean_blocks_update clean_blocks_nth py_index_bound CacheBlock_write_to_cache_def)
  show ?thesis
    using assms
    by (auto simp: write_to_cache_wt_def Let_def u split: sum.splits prod.splits)
qed

lemma clean_write_to_cache:
  assumes "clean_blocks (blocks s)"
  shows "clean_blocks (blocks (snd (snd (CacheSet_write_to_cache m s a t bi off w False))))"
proof -
  have u: "write_to_cache_wt m s a bi w = (r, m', s') \<Longrightarrow> clean_blocks (blocks s')" for r m' s'
    using clean_write_to_cache_wt [OF assms, of m a bi w] by simp
  show ?thesis
    using assms
    by (auto simp: CacheSet_write_to_cache_def dest: u split: sum.splits prod.splits)
qed

lemma all_clean_sets_update:
  "all_clean c \<Longrightarrow> clean_blocks (blocks s') \<Longrightarrow> all_clean (c\<lparr>memory := m', sets := (sets c)[k := s']\<rparr>)"
  unfolding all_clean_def using set_update_subset_insert [of "sets c" k s'] by auto

lemma all_clean_sets_update':
  "all_clean c \<Longrightarrow> clean_blocks (blocks s') \<Longrightarrow> all_clean (c\<lparr>sets := (sets c)[k := s']\<rparr>)"
  unfolding all_clean_def using set_update_subset_insert [of "sets c" k s'] by auto

lemma all_clean_nth: "all_clean c \<Longrightarrow> k < length (sets c) \<Longrightarrow> clean_blocks (blocks (sets c ! k))"
  by (simp add: all_clean_def)

lemma clean_Cache_read:
  assumes "all_clean c"
  shows "all_clean (snd (Cache_read c a)) \<and> write_back (snd (Cache_read c a)) = write_back c"
proof -
  obtain off idx t where sp: "split_address c a = (off, idx, t)"
    by (cases "split_address c a") auto
  show ?thesis
  proof (cases "py_index (sets c) idx")
    case (Inl e)
    then show ?thesis using assms sp by (simp add: Cache_read_def)
  next
    case (Inr k)
    then have k: "k < length (sets c)" by (rule py_index_bound)
    let ?s = "sets c ! k"
    have cs: "clean_blocks (blocks ?s)" using assms k by (rule all_clean_nth)
    show ?thesis
    proof (cases "find_block_index ?s t = - 1")
      case True
      obtain r m' s' where rm: "CacheSet_read_from_memory (memory c) ?s a t off = (r, m', s')"
        by (cases "CacheSet_read_from_memory (memory c) ?s a t off") auto
      have "clean_blocks (blocks s')"
        using clean_read_from_memory [OF cs, of "memory c" a t off] rm by simp
      then show ?thesis
        using assms sp Inr True rm
        by (auto simp: Cache_read_def Let_def all_clean_sets_update split: sum.splits)
    next
      case False
      obtain r s' where rc: "CacheSet_read_from_cache ?s a t (find_block_index ?s t) off = (r, s')"
        by (cases "CacheSet_read_from_cache ?s a t (find_block_index ?s t) off") auto
      have "clean_blocks (blocks s')"
        using clean_read_from_cache [OF cs, of a t "find_block_index ?s t" off] rc by simp
      then show ?thesis
        using assms sp Inr False rc
        by (auto simp: Cache_read_def Let_def all_clean_sets_update' split: sum.splits)
    qed
  qed
qed

lemma clean_Cache_write:
  assumes "all_clean c" and "\<not> write_back c"
  shows "all_clean (snd (Cache_write c a w)) \<and> write_back (snd (Cache_write c a w)) = write_back c"
proof -
  obtain off idx t where sp: "split_address c a = (off, idx, t)"
    by (cases "split_address c a") auto
  show ?thesis
  proof (cases "py_index (sets c) idx")
    case (Inl e)
    then show ?thesis using assms sp by (simp add: Cache_write_def)
  next
    case (Inr k)
    then have k: "k < length (sets c)" by (rule py_index_bound)
    let ?s = "sets c ! k"
    let ?bi = "find_block_index ?s t"
    have cs: "clean_blocks (blocks ?s)" using assms(1) k by (rule all_clean_nth)
    have w: "clean_blocks (blocks s1) \<Longrightarrow>
             CacheSet_write_to_cache m1 s1 a t bi off w False = (r, m2, s2) \<Longrightarrow>
             clean_blocks (blocks s2)" for s1 m1 r m2 s2 bi
      using clean_write_to_cache [of s1 m1 a t bi off w] by simp
    show ?thesis
    proof (cases "?bi = - 1")
      case True
      obtain r m' s' where rm: "CacheSet_read_from_memory (memory c) ?s a t off = (r, m', s')"
        by (cases "CacheSet_read_from_memory (memory c) ?s a t off") auto
      have c1: "clean_blocks (blocks s')"
        using clean_read_from_memory [OF cs, of "memory c" a t off] rm by simp
      show ?thesis
        using assms sp Inr True rm c1
        by (auto simp: Cache_write_def Let_def all_clean_sets_update dest: w [OF c1]
                 split: sum.splits prod.splits)
    next
      case False
      show ?thesis
        using assms sp Inr False cs
        by (auto simp: Cache_write_def Let_def all_clean_sets_update dest: w [OF cs]
                 split: sum.splits prod.splits)
    qed
  qed
qed

lemma clean_run_op:
  assumes "all_clean (cache sim)" and "\<not> write_back (cache sim)"
  shows "all_clean (cache (snd (run_op sim op))) \<and> \<not> write_back (cache (snd (run_op sim op)))"
proof (cases op)
  case (Read a)
  show ?thesis
    using assms clean_Cache_read [OF assms(1), of a]
    by (auto simp: Read CacheSim_read_def split: sum.splits prod.splits)
next
  case (Write a w)
  show ?thesis
    using assms clean_Cache_write [OF assms, of a "int_to_bytearray w"]
    by (auto simp: Write CacheSim_write_def split: sum.splits prod.splits)
qed

lemma clean_run_ops:
  "all_clean (cache sim) \<Longrightarrow> \<not> write_back (cache sim) \<Longrightarrow>
   all_clean (cache (snd (run_ops sim ops)))"
proof (induction ops arbitrary: sim)
  case Nil
  then show ?case by simp
next
  case (Cons op ops)
  obtain r sim' where ro: "run_op sim op = (r, sim')" by (cases "run_op sim op") auto
  have st: "all_clean (cache sim') \<and> \<not> write_back (cache sim')"
    using clean_run_op [OF Cons.prems, of op] ro by simp
  show ?case
  proof (cases r)
    case (Inl e)
    then show ?thesis using ro st by simp
  next
    case (Inr d)
    then show ?thesis using ro st Cons.IH [of sim'] by (simp add: case_prod_beta)
  qed
qed

lemma collect_set:
  "collect f xs = Inr ys \<Longrightarrow> y \<in> set ys \<Longrightarrow> \<exists>x \<in> set xs. f x = Inr y"
  by (induction xs arbitrary: ys) (auto split: sum.splits)

lemma CacheBlock_init_clean: "CacheBlock_init b_size = Inr b \<Longrightarrow> \<not> dirty b"
  by (auto simp: CacheBlock_init_def split: sum.splits if_splits)

lemma CacheSet_init_clean: "CacheSet_init wb n b_size i = Inr s \<Longrightarrow> clean_blocks (blocks s)"
  by (auto simp: CacheSet_init_def clean_blocks_def split: sum.splits
           dest!: collect_set dest: CacheBlock_init_clean)

lemma Cache_init_sets:
  "Cache_init mem a_size c_size b_size assoc wb = Inr c \<Longrightarrow>
   write_back c = wb \<and> (\<exists>n. collect (\<lambda>i. CacheSet_init wb n b_size i) (py_range (num_sets c)) = Inr (sets c))"
  by (auto simp: Cache_init_def split: sum.splits)

lemma Cache_init_clean:
  assumes "Cache_init mem a_size c_size b_size assoc wb = Inr c"
  shows "all_clean c \<and> write_back c = wb"
proof -
  obtain n where col: "collect (\<lambda>i. CacheSet_init wb n b_size i) (py_range (num_sets c)) = Inr (sets c)"
    and wb: "write_back c = wb"
    using Cache_init_sets [OF assms] by blast
  have "clean_blocks (blocks s)" if mem: "s \<in> set (sets c)" for s
  proof -
    obtain i where "CacheSet_init wb n b_size i = Inr s"
      using collect_set [OF col mem] by blast
    then show ?thesis by (rule CacheSet_init_clean)
  qed
  then show ?thesis using wb by (simp add: all_clean_def)
qed

lemma CacheSim_init_clean:
  "CacheSim_init a_size c_size b_size assoc wb = Inr sim \<Longrightarrow>
   all_clean (cache sim) \<and> write_back (cache sim) = wb"
  by (auto simp: CacheSim_init_def Let_def split: sum.splits dest: Cache_init_clean)

text \<open>
  C10. If the simulator is constructed in write-through mode (\<open>write_back = False\<close>), then
  after any script of reads and writes, whatever their addresses and whether or not one
  of them raises, the dirty flag of every block of every set is false.
\<close>

theorem write_through_blocks_stay_clean:
  assumes "\<not> isl (CacheSim_init a_size c_size b_size assoc False)"
  shows "\<forall>s \<in> set (sets (cache (snd (run_ops (booted a_size c_size b_size assoc False) ops)))).
           \<forall>b \<in> set (blocks s). \<not> dirty b"
proof -
  have "CacheSim_init a_size c_size b_size assoc False = Inr (booted a_size c_size b_size assoc False)"
    using assms by (simp add: booted_def)
  then have "all_clean (cache (booted a_size c_size b_size assoc False))"
    and "\<not> write_back (cache (booted a_size c_size b_size assoc False))"
    using CacheSim_init_clean by blast+
  then have "all_clean (cache (snd (run_ops (booted a_size c_size b_size assoc False) ops)))"
    by (rule clean_run_ops)
  then show ?thesis by (simp add: all_clean_def clean_blocks_def)
qed

text \<open>C10 at a script with misses, hits, evictions and a read at the memory size.\<close>

theorem write_through_blocks_stay_clean_witness:
  "\<not> isl (CacheSim_init 7 64 32 2 False) \<and>
   list_all (\<lambda>s. list_all (\<lambda>b. \<not> dirty b) (blocks s))
     (sets (cache (snd (run_ops (booted 7 64 32 2 False)
                     [Write 32 7, Read 0, Write 0 9, Read 64, Write 32 1, Read 128]))))"
proof -
  have h: "\<not> isl (CacheSim_init 7 64 32 2 False)" by code_simp
  have "\<forall>s \<in> set (sets (cache (snd (run_ops (booted 7 64 32 2 False)
                     [Write 32 7, Read 0, Write 0 9, Read 64, Write 32 1, Read 128])))).
          \<forall>b \<in> set (blocks s). \<not> dirty b"
    by (rule write_through_blocks_stay_clean [OF h])
  then have l: "list_all (\<lambda>s. list_all (\<lambda>b. \<not> dirty b) (blocks s))
     (sets (cache (snd (run_ops (booted 7 64 32 2 False)
                     [Write 32 7, Read 0, Write 0 9, Read 64, Write 32 1, Read 128]))))"
    unfolding list_all_iff .
  from h l show ?thesis by (rule conjI)
qed


section \<open>The write-back entry of a write's result\<close>

lemma py_range_4: "py_range 4 = [0, 1, 2, 3]"
  by (simp add: py_range_def upt_rec)







section \<open>The state that completed accesses keep\<close>

subsection \<open>Indexing and the tracker\<close>

lemma py_index_nonneg: "0 \<le> i \<Longrightarrow> i < int (length xs) \<Longrightarrow> py_index xs i = Inr (nat i)"
  by (simp add: py_index_def)

lemma py_get_nonneg: "0 \<le> i \<Longrightarrow> i < int (length xs) \<Longrightarrow> py_get xs i = Inr (xs ! nat i)"
  by (simp add: py_get_def py_index_nonneg)

lemma py_set_nonneg: "0 \<le> i \<Longrightarrow> i < int (length xs) \<Longrightarrow> py_set xs i v = Inr (xs[nat i := v])"
  by (simp add: py_set_def py_index_nonneg)

lemma py_index_last: "xs \<noteq> [] \<Longrightarrow> py_index xs (- 1) = Inr (length xs - 1)"
  by (cases xs) (simp_all add: py_index_def)

lemma find_tag_scan:
  "find_tag (pre @ xs) t (map int [length pre ..< length pre + length xs]) =
     Inr (if t \<in> set xs then Some (int (length pre + length (takeWhile (\<lambda>x. x \<noteq> t) xs))) else None)"
proof (induction xs arbitrary: pre)
  case Nil
  then show ?case by simp
next
  case (Cons x xs)
  have "[length pre ..< length pre + length (x # xs)] =
        length pre # [Suc (length pre) ..< length pre + length (x # xs)]"
    by (rule upt_conv_Cons) simp
  then have idx: "[length pre ..< length pre + length (x # xs)] =
             length pre # [length (pre @ [x]) ..< length (pre @ [x]) + length xs]"
    by simp
  have g: "py_get (pre @ x # xs) (int (length pre)) = Inr x"
    by (simp add: py_get_nonneg)
  have step: "find_tag (pre @ x # xs) t (map int [length pre ..< length pre + length (x # xs)]) =
      (if x = t then Inr (Some (int (length pre)))
       else find_tag ((pre @ [x]) @ xs) t
              (map int [length (pre @ [x]) ..< length (pre @ [x]) + length xs]))"
    unfolding idx using g by simp
  show ?case
  proof (cases "x = t")
    case True
    then show ?thesis unfolding step by simp
  next
    case False
    then show ?thesis unfolding step Cons.IH by auto
  qed
qed

lemma find_tag_queue:
  "find_tag q t (py_range (int (length q))) =
     Inr (if t \<in> set q then Some (int (length (takeWhile (\<lambda>x. x \<noteq> t) q))) else None)"
  using find_tag_scan [of "[]" q t] by (simp add: py_range_def)

lemma remove1_takeWhile:
  "t \<in> set q \<Longrightarrow>
   take (length (takeWhile (\<lambda>x. x \<noteq> t) q)) q @ drop (Suc (length (takeWhile (\<lambda>x. x \<noteq> t) q))) q =
   remove1 t q"
  by (induction q) auto

lemma takeWhile_index_less: "t \<in> set q \<Longrightarrow> length (takeWhile (\<lambda>x. x \<noteq> t) q) < length q"
  by (induction q) auto

lemma update_queue_present:
  assumes "tq_size tq = int (length (queue tq))" and "t \<in> set (queue tq)"
  shows "update_queue tq t = (Inr True, tq\<lparr>queue := remove1 t (queue tq) @ [t]\<rparr>)"
proof -
  let ?i = "length (takeWhile (\<lambda>x. x \<noteq> t) (queue tq))"
  have "?i < length (queue tq)"
    using assms(2) by (rule takeWhile_index_less)
  then have "py_pop (queue tq) (int ?i) = Inr (remove1 t (queue tq))"
    using assms(2) by (simp add: py_pop_def py_index_nonneg remove1_takeWhile)
  then show ?thesis
    using assms by (simp add: update_queue_def find_tag_queue)
qed

lemma update_queue_absent:
  assumes "tq_size tq = int (length (queue tq))" and "t \<notin> set (queue tq)" and "queue tq \<noteq> []"
  shows "update_queue tq t = (Inr False, tq\<lparr>queue := tl (queue tq) @ [t]\<rparr>)"
proof -
  have "py_pop (queue tq) 0 = Inr (tl (queue tq))"
    using assms(3) by (cases "queue tq") (simp_all add: py_pop_def py_index_def)
  then show ?thesis
    using assms by (simp add: update_queue_def find_tag_queue)
qed

lemma tracked_replicate: "- 1 \<notin> set ts \<Longrightarrow> tracked (replicate n (- 1) @ ts) = ts"
proof (induction n)
  case 0
  then show ?case by (cases ts) (simp_all add: tracked_def)
next
  case (Suc n)
  then show ?case by (simp add: tracked_def)
qed

lemma tracked_repr: "\<exists>n. q = replicate n (- 1) @ tracked q"
proof -
  let ?p = "takeWhile (\<lambda>t. t = - 1) q"
  have "\<forall>y \<in> set ?p. y = - 1" by (auto dest: set_takeWhileD)
  then have "replicate (length ?p) (- 1) = ?p" by (rule replicate_length_same)
  then have "q = replicate (length ?p) (- 1) @ tracked q"
    by (simp add: tracked_def)
  then show ?thesis ..
qed


subsection \<open>Blocks\<close>

lemma py_get_word:
  "4 \<le> length xs \<Longrightarrow>
   py_get xs 0 = Inr (xs ! 0) \<and> py_get xs 1 = Inr (xs ! 1) \<and>
   py_get xs 2 = Inr (xs ! 2) \<and> py_get xs 3 = Inr (xs ! 3)"
  by (auto simp: py_get_def py_index_def)

lemma py_set_word:
  "4 \<le> length xs \<Longrightarrow>
   py_set xs 0 v = Inr (xs[0 := v]) \<and> py_set xs 1 v = Inr (xs[1 := v]) \<and>
   py_set xs 2 v = Inr (xs[2 := v]) \<and> py_set xs 3 v = Inr (xs[3 := v])"
  by (auto simp: py_set_def py_index_def)

lemma load_word_ok:
  assumes "0 \<le> a" and "a + 4 \<le> int (length mem)" and "4 \<le> length w"
  shows "\<exists>w'. load_word mem a [0, 1, 2, 3] w = (Inr (), w') \<and> length w' = length w"
  using assms by (simp add: py_get_nonneg py_set_word)

lemma store_word_ok:
  assumes "0 \<le> a" and "a + 4 \<le> int (length mem)" and "4 \<le> length w"
  shows "\<exists>mem'. store_word w a [0, 1, 2, 3] mem = (Inr (), mem') \<and> length mem' = length mem"
  using assms by (simp add: py_get_word py_set_nonneg)

lemma read_from_memory_ok:
  assumes "0 \<le> a" and "a + 4 \<le> int (length mem)" and "4 \<le> length (word b)"
  shows "\<exists>b'. CacheBlock_read_from_memory mem b a t = (Inr (), b') \<and> occupied b' \<and> tag b' = t \<and>
           dirty b' = dirty b \<and> length (word b') = length (word b)"
proof -
  obtain w' where "load_word mem a [0, 1, 2, 3] (word b) = (Inr (), w')" and "length w' = length (word b)"
    using load_word_ok [OF assms] by blast
  then show ?thesis
    by (simp add: CacheBlock_read_from_memory_def py_range_4 Let_def del: load_word.simps)
qed

lemma write_to_memory_ok:
  assumes "0 \<le> a" and "a + 4 \<le> int (length mem)" and "4 \<le> length (word b)"
  shows "\<exists>mem'. CacheBlock_write_to_memory mem b a = (Inr (), mem') \<and> length mem' = length mem"
  using store_word_ok [OF assms]
  by (simp add: CacheBlock_write_to_memory_def py_range_4 del: store_word.simps)

lemma get_word_dec_ok: "4 \<le> length (word b) \<Longrightarrow> \<exists>v. get_word_dec b = Inr v"
  by (simp add: get_word_dec_def py_get_word)

lemma get_word_dec_cong: "word b = word b' \<Longrightarrow> get_word_dec b = get_word_dec b'"
  unfolding get_word_dec_def by (erule subst) (rule refl)

lemma occupied_tags_split:
  "k < length bs \<Longrightarrow>
   occupied_tags bs = occupied_tags (take k bs) @ (if occupied (bs ! k) then [tag (bs ! k)] else []) @
                      occupied_tags (drop (Suc k) bs)"
proof -
  assume "k < length bs"
  then have "bs = take k bs @ bs ! k # drop (Suc k) bs" by (rule id_take_nth_drop)
  then have "occupied_tags bs = occupied_tags (take k bs @ bs ! k # drop (Suc k) bs)" by simp
  then show ?thesis by (simp add: occupied_tags_def)
qed

lemma occupied_tags_update:
  "k < length bs \<Longrightarrow>
   occupied_tags (bs[k := v]) = occupied_tags (take k bs) @ (if occupied v then [tag v] else []) @
                                occupied_tags (drop (Suc k) bs)"
  by (simp add: upd_conv_take_nth_drop occupied_tags_def)

lemma occupied_tags_same:
  assumes "tag v = tag (bs ! k)" and "occupied v = occupied (bs ! k)"
  shows "occupied_tags (bs[k := v]) = occupied_tags bs"
proof (cases "k < length bs")
  case True
  show ?thesis
    using assms occupied_tags_split [OF True] occupied_tags_update [OF True, of v] by simp
next
  case False
  then have "length bs \<le> k" by linarith
  then have "bs[k := v] = bs" by (rule list_update_beyond)
  then show ?thesis by (rule arg_cong)
qed

lemma occupied_tags_all: "first_free bs = None \<Longrightarrow> occupied_tags bs = map tag bs"
  by (induction bs) (auto simp: occupied_tags_def split: if_splits)

lemma first_free_Some: "first_free bs = Some k \<Longrightarrow> k < length bs \<and> \<not> occupied (bs ! k)"
  by (induction bs arbitrary: k) (auto split: if_splits)

lemma occupied_tags_length: "length (occupied_tags bs) \<le> length bs"
  by (simp add: occupied_tags_def)

lemma occupied_tags_length_free:
  "k < length bs \<Longrightarrow> \<not> occupied (bs ! k) \<Longrightarrow> length (occupied_tags bs) < length bs"
proof -
  assume k: "k < length bs" and f: "\<not> occupied (bs ! k)"
  have "length (occupied_tags (take k bs)) \<le> k"
    using occupied_tags_length [of "take k bs"] k by simp
  moreover have "length (occupied_tags (drop (Suc k) bs)) \<le> length bs - Suc k"
    using occupied_tags_length [of "drop (Suc k) bs"] by simp
  ultimately show ?thesis
    using k f by (subst occupied_tags_split [OF k]) simp
qed

lemma find_block_from_miss:
  "find_block_from bs t i = - 1 \<Longrightarrow> 0 \<le> i \<Longrightarrow> t \<notin> set (occupied_tags bs)"
  by (induction bs arbitrary: i) (auto simp: occupied_tags_def split: if_splits)

lemma find_block_from_hit:
  "t \<in> set (occupied_tags bs) \<Longrightarrow>
   \<exists>j < length bs. find_block_from bs t i = i + int j \<and> occupied (bs ! j) \<and> tag (bs ! j) = t"
proof (induction bs arbitrary: i)
  case Nil
  then show ?case by (simp add: occupied_tags_def)
next
  case (Cons b bs)
  show ?case
  proof (cases "tag b = t \<and> occupied b")
    case True
    then show ?thesis by (intro exI [of _ 0]) simp
  next
    case False
    with Cons.prems have "t \<in> set (occupied_tags bs)"
      by (auto simp: occupied_tags_def split: if_splits)
    from Cons.IH [OF this, of "i + 1"] obtain j where "j < length bs"
      "find_block_from bs t (i + 1) = i + 1 + int j" "occupied (bs ! j)" "tag (bs ! j) = t"
      by blast
    with False show ?thesis by (intro exI [of _ "Suc j"]) simp
  qed
qed

lemma find_block_index_miss: "find_block_index s t = - 1 \<Longrightarrow> t \<notin> set (occupied_tags (blocks s))"
  by (simp add: find_block_index_def find_block_from_miss)

lemma find_block_index_hit:
  "t \<in> set (occupied_tags (blocks s)) \<Longrightarrow>
   \<exists>j < length (blocks s). find_block_index s t = int j \<and> occupied (blocks s ! j) \<and> tag (blocks s ! j) = t"
  using find_block_from_hit [of t "blocks s" 0] by (simp add: find_block_index_def)

lemma find_block_index_cases:
  "find_block_index s t = - 1 \<and> t \<notin> set (occupied_tags (blocks s)) \<or>
   (\<exists>j < length (blocks s). find_block_index s t = int j \<and> occupied (blocks s ! j) \<and> tag (blocks s ! j) = t
       \<and> t \<in> set (occupied_tags (blocks s)))"
proof (cases "t \<in> set (occupied_tags (blocks s))")
  case True
  then show ?thesis using find_block_index_hit by blast
next
  case False
  have "find_block_from bs t i = - 1" if "t \<notin> set (occupied_tags bs)" for bs i
    using that by (induction bs arbitrary: i) (auto simp: occupied_tags_def split: if_splits)
  then show ?thesis using False by (simp add: find_block_index_def)
qed

subsection \<open>Sets\<close>

lemma wf_set_repr:
  assumes "wf_set s"
  obtains n ts where "queue (tag_queue s) = replicate n (- 1) @ ts"
    and "tracked (queue (tag_queue s)) = ts" and "- 1 \<notin> set ts" and "distinct ts"
    and "set ts = set (occupied_tags (blocks s))"
    and "length ts = length (occupied_tags (blocks s))"
    and "n + length ts = length (blocks s)"
proof -
  let ?q = "queue (tag_queue s)"
  obtain n where q: "?q = replicate n (- 1) @ tracked ?q" using tracked_repr by blast
  have d: "distinct (tracked ?q)" "distinct (occupied_tags (blocks s))"
    and e: "set (tracked ?q) = set (occupied_tags (blocks s))"
    and m: "- 1 \<notin> set (tracked ?q)" and l: "length ?q = length (blocks s)"
    using assms unfolding wf_set_def by blast+
  have "card (set (tracked ?q)) = length (tracked ?q)" using d(1) by (rule distinct_card)
  moreover have "card (set (occupied_tags (blocks s))) = length (occupied_tags (blocks s))"
    using d(2) by (rule distinct_card)
  ultimately have len: "length (tracked ?q) = length (occupied_tags (blocks s))" using e by simp
  have "length ?q = n + length (tracked ?q)" by (subst q) simp
  then have "n + length (tracked ?q) = length (blocks s)" using l by simp
  with q m d(1) e len show ?thesis using that by blast
qed

lemma wf_set_fields:
  "blocks s' = blocks s \<Longrightarrow> tag_queue s' = tag_queue s \<Longrightarrow> set_block_size s' = set_block_size s \<Longrightarrow>
   wf_set s' = wf_set s"
  by (simp add: wf_set_def)

lemma wf_set_queueI:
  assumes "blocks s \<noteq> []" and "tq_size (tag_queue s) = int (length (blocks s))"
    and "set_block_size s \<noteq> 0" and "\<forall>b \<in> set (blocks s). 4 \<le> length (word b)"
    and "queue (tag_queue s) = replicate n (- 1) @ ts" and "n + length ts = length (blocks s)"
    and "- 1 \<notin> set ts" and "distinct ts" and "distinct (occupied_tags (blocks s))"
    and "set ts = set (occupied_tags (blocks s))"
  shows "wf_set s"
proof -
  have "tracked (queue (tag_queue s)) = ts"
    unfolding assms(5) using assms(7) by (rule tracked_replicate)
  moreover have "length (queue (tag_queue s)) = length (blocks s)"
    unfolding assms(5) using assms(6) by simp
  ultimately show ?thesis
    unfolding wf_set_def using assms(1-4,7-10) by simp
qed

lemma wf_set_touch:
  assumes wf: "wf_set s" and t: "t \<in> set (occupied_tags (blocks s))"
    and b: "blocks s' = blocks s" and z: "set_block_size s' = set_block_size s"
    and q: "tag_queue s' = (tag_queue s)\<lparr>queue := remove1 t (queue (tag_queue s)) @ [t]\<rparr>"
  shows "wf_set s'"
proof -
  from wf obtain n ts where r: "queue (tag_queue s) = replicate n (- 1) @ ts"
    "- 1 \<notin> set ts" "distinct ts" "set ts = set (occupied_tags (blocks s))"
    "n + length ts = length (blocks s)"
    by (rule wf_set_repr)
  have t1: "t \<noteq> - 1" using t r by auto
  have tin: "t \<in> set ts" using t r(4) by simp
  show ?thesis
  proof (rule wf_set_queueI [where n = n and ts = "remove1 t ts @ [t]"])
    show "blocks s' \<noteq> []" using wf by (simp add: b wf_set_def)
    show "tq_size (tag_queue s') = int (length (blocks s'))" using wf by (simp add: b q wf_set_def)
    show "set_block_size s' \<noteq> 0" using wf by (simp add: z wf_set_def)
    show "\<forall>b \<in> set (blocks s'). 4 \<le> length (word b)" using wf by (simp add: b wf_set_def)
    show "queue (tag_queue s') = replicate n (- 1) @ remove1 t ts @ [t]"
      using t1 by (simp add: q r(1) remove1_append)
    show "n + length (remove1 t ts @ [t]) = length (blocks s')"
      using r(5) tin length_pos_if_in_set [of t ts] by (simp add: b length_remove1)
    show "- 1 \<notin> set (remove1 t ts @ [t])" using r(2) t1 by (auto dest: notin_set_remove1)
    show "distinct (remove1 t ts @ [t])" using r(3) by simp
    show "distinct (occupied_tags (blocks s'))" using wf by (simp add: b wf_set_def)
    show "set (remove1 t ts @ [t]) = set (occupied_tags (blocks s'))"
      using tin r(3,4) by (auto simp: b)
  qed
qed


lemma occupied_tag_in_queue:
  assumes "wf_set s" and "t \<in> set (occupied_tags (blocks s))"
  shows "t \<in> set (queue (tag_queue s))"
proof -
  from assms have "t \<in> set (tracked (queue (tag_queue s)))" by (simp add: wf_set_def)
  then show ?thesis by (auto simp: tracked_def dest: set_dropWhileD)
qed

lemma absent_tag_not_in_queue:
  assumes "wf_set s" and "t \<notin> set (occupied_tags (blocks s))" and "t \<noteq> - 1"
  shows "t \<notin> set (queue (tag_queue s))"
proof -
  from assms(1) obtain n ts where r: "queue (tag_queue s) = replicate n (- 1) @ ts"
    "set ts = set (occupied_tags (blocks s))"
    by (rule wf_set_repr)
  then show ?thesis using assms(2,3) by auto
qed

lemma block_self_update: "occupied b \<Longrightarrow> CacheBlock_read_from_cache b (tag b) = b"
  by (simp add: CacheBlock_read_from_cache_def)

lemma word_length_nth: "wf_set s \<Longrightarrow> j < length (blocks s) \<Longrightarrow> 4 \<le> length (word (blocks s ! j))"
  by (simp add: wf_set_def)

lemma find_range_ok: "b \<noteq> 0 \<Longrightarrow> \<exists>r. find_range a b = Inr r"
  by (simp add: find_range_def Let_def)

lemma add_basic_ok:
  assumes "set_block_size s \<noteq> 0"
  shows "\<exists>d. add_basic_operation_details s od a off t = Inr d \<and> d ''word'' = od ''word'' \<and>
             d ''write_back'' = od ''write_back'' \<and> d ''hit_or_miss'' = od ''hit_or_miss'' \<and>
             d ''replace_details'' = od ''replace_details''"
proof -
  obtain r where "find_range a (set_block_size s) = Inr r" using find_range_ok [OF assms] by blast
  then show ?thesis by (simp add: add_basic_operation_details_def map_add_def)
qed

lemma read_from_cache_hit:
  assumes wf: "wf_set s" and j: "j < length (blocks s)"
    and o: "occupied (blocks s ! j)" and tg: "tag (blocks s ! j) = t"
  shows "\<exists>d v. CacheSet_read_from_cache s a t (int j) off =
            (Inr d, s\<lparr>tag_queue := (tag_queue s)\<lparr>queue := remove1 t (queue (tag_queue s)) @ [t]\<rparr>\<rparr>) \<and>
          d ''word'' = Some (PInt v) \<and> get_word_dec (blocks s ! j) = Inr v \<and>
          d ''write_back'' = None \<and> d ''hit_or_miss'' = None"
proof -
  let ?tq = "(tag_queue s)\<lparr>queue := remove1 t (queue (tag_queue s)) @ [t]\<rparr>"
  have pi: "py_index (blocks s) (int j) = Inr j" using j by (simp add: py_index_nonneg)
  have same: "(blocks s)[j := CacheBlock_read_from_cache (blocks s ! j) t] = blocks s"
    using block_self_update [OF o] tg by simp
  have tin: "t \<in> set (occupied_tags (blocks s))"
    using j o tg by (auto simp: occupied_tags_def in_set_conv_nth)
  have uq: "update_queue (tag_queue s) t = (Inr True, ?tq)"
    using wf occupied_tag_in_queue [OF wf tin] by (intro update_queue_present) (simp_all add: wf_set_def)
  obtain v where v: "get_word_dec (blocks s ! j) = Inr v"
    using get_word_dec_ok [OF word_length_nth [OF wf j]] by blast
  have bs: "set_block_size (s\<lparr>tag_queue := ?tq\<rparr>) \<noteq> 0" using wf by (simp add: wf_set_def)
  obtain d where d: "add_basic_operation_details (s\<lparr>tag_queue := ?tq\<rparr>)
        [''word'' \<mapsto> PInt v, ''replace_details'' \<mapsto> PNone] a off t = Inr d"
    "d ''word'' = Some (PInt v)" "d ''write_back'' = None" "d ''hit_or_miss'' = None"
    using add_basic_ok [OF bs, of "[''word'' \<mapsto> PInt v, ''replace_details'' \<mapsto> PNone]" a off t]
    by auto
  show ?thesis
    using d v by (simp add: CacheSet_read_from_cache_def pi same uq Let_def)
qed

lemma first_free_None: "first_free bs = None \<Longrightarrow> \<forall>b \<in> set bs. occupied b"
  by (induction bs) (auto split: if_splits)

lemma occupied_unique_lt:
  assumes d: "distinct (occupied_tags bs)" and ij: "i < j" "j < length bs"
    and o: "occupied (bs ! i)" "occupied (bs ! j)"
  shows "tag (bs ! i) \<noteq> tag (bs ! j)"
proof -
  have "bs ! i \<in> set (take j bs)"
    using ij by (metis length_take min.absorb2 nth_mem nth_take order.strict_implies_order)
  then have "tag (bs ! i) \<in> set (occupied_tags (take j bs))"
    using o(1) by (auto simp: occupied_tags_def)
  moreover have "tag (bs ! j) \<notin> set (occupied_tags (take j bs))"
    using d o(2) by (subst (asm) occupied_tags_split [OF ij(2)]) auto
  ultimately show ?thesis by auto
qed

lemma occupied_unique:
  assumes "distinct (occupied_tags bs)" and "i < length bs" "j < length bs"
    and "occupied (bs ! i)" "occupied (bs ! j)" and "tag (bs ! i) = tag (bs ! j)"
  shows "i = j"
proof (rule ccontr)
  assume "i \<noteq> j"
  then consider "i < j" | "j < i" by linarith
  then show False
  proof cases
    case 1
    then show ?thesis using occupied_unique_lt [OF assms(1) 1 assms(3,4,5)] assms(6) by simp
  next
    case 2
    then show ?thesis using occupied_unique_lt [OF assms(1) 2 assms(2,5,4)] assms(6) by simp
  qed
qed

lemma find_block_index_unique:
  assumes "wf_set s" and "k < length (blocks s)" and "occupied (blocks s ! k)" and "tag (blocks s ! k) = t"
  shows "find_block_index s t = int k"
proof -
  have "t \<in> set (occupied_tags (blocks s))"
    using assms(2,3,4) by (auto simp: occupied_tags_def in_set_conv_nth)
  then obtain j where j: "j < length (blocks s)" "find_block_index s t = int j"
    "occupied (blocks s ! j)" "tag (blocks s ! j) = t"
    using find_block_index_hit by blast
  have "distinct (occupied_tags (blocks s))" using assms(1) by (simp add: wf_set_def)
  then have "j = k" using j assms by (intro occupied_unique [of "blocks s"]) simp_all
  then show ?thesis using j(2) by simp
qed

lemma words_update:
  "\<forall>b \<in> set bs. 4 \<le> length (word b) \<Longrightarrow> 4 \<le> length (word v) \<Longrightarrow>
   \<forall>b \<in> set (bs[k := v]). 4 \<le> length (word b)"
  using set_update_subset_insert [of bs k v] by auto

lemma wf_set_install_free:
  assumes wf: "wf_set s" and k: "k < length (blocks s)" "\<not> occupied (blocks s ! k)"
    and t: "t \<notin> set (occupied_tags (blocks s))" "t \<noteq> - 1"
    and b': "occupied b'" "tag b' = t" "4 \<le> length (word b')"
    and bs: "blocks s' = (blocks s)[k := b']" and z: "set_block_size s' = set_block_size s"
    and q: "tag_queue s' = (tag_queue s)\<lparr>queue := tl (queue (tag_queue s)) @ [t]\<rparr>"
  shows "wf_set s'"
proof -
  from wf obtain n ts where r: "queue (tag_queue s) = replicate n (- 1) @ ts"
    "- 1 \<notin> set ts" "distinct ts" "set ts = set (occupied_tags (blocks s))"
    "length ts = length (occupied_tags (blocks s))" "n + length ts = length (blocks s)"
    by (rule wf_set_repr)
  have "length ts < length (blocks s)"
    using occupied_tags_length_free [OF k] r(5) by simp
  then obtain n' where n: "n = Suc n'" using r(6) by (cases n) simp_all
  let ?A = "occupied_tags (take k (blocks s))"
  let ?B = "occupied_tags (drop (Suc k) (blocks s))"
  have occ: "occupied_tags (blocks s) = ?A @ ?B"
    using occupied_tags_split [OF k(1)] k(2) by simp
  have occ': "occupied_tags (blocks s') = ?A @ [t] @ ?B"
    using occupied_tags_update [OF k(1), of b'] b' by (simp add: bs)
  show ?thesis
  proof (rule wf_set_queueI [where n = n' and ts = "ts @ [t]"])
    show "blocks s' \<noteq> []" using wf by (simp add: bs wf_set_def)
    show "tq_size (tag_queue s') = int (length (blocks s'))" using wf by (simp add: bs q wf_set_def)
    show "set_block_size s' \<noteq> 0" using wf by (simp add: z wf_set_def)
    show "\<forall>b \<in> set (blocks s'). 4 \<le> length (word b)"
      unfolding bs using wf b'(3) by (intro words_update) (simp_all add: wf_set_def)
    show "queue (tag_queue s') = replicate n' (- 1) @ ts @ [t]" by (simp add: q r(1) n)
    show "n' + length (ts @ [t]) = length (blocks s')" using r(6) n by (simp add: bs)
    show "- 1 \<notin> set (ts @ [t])" using r(2) t(2) by auto
    show "distinct (ts @ [t])" using r(3,4) t(1) by simp
    show "distinct (occupied_tags (blocks s'))"
      using wf t(1) unfolding occ' by (auto simp: wf_set_def occ)
    show "set (ts @ [t]) = set (occupied_tags (blocks s'))"
      unfolding occ' using r(4) by (auto simp: occ)
  qed
qed

lemma wf_set_install_full:
  assumes wf: "wf_set s" and k: "k < length (blocks s)" "first_free (blocks s) = None"
    and lru: "tag (blocks s ! k) = hd (queue (tag_queue s))"
    and t: "t \<notin> set (occupied_tags (blocks s))" "t \<noteq> - 1"
    and b': "occupied b'" "tag b' = t" "4 \<le> length (word b')"
    and bs: "blocks s' = (blocks s)[k := b']" and z: "set_block_size s' = set_block_size s"
    and q: "tag_queue s' = (tag_queue s)\<lparr>queue := tl (queue (tag_queue s)) @ [t]\<rparr>"
  shows "wf_set s'"
proof -
  from wf obtain n ts where r: "queue (tag_queue s) = replicate n (- 1) @ ts"
    "- 1 \<notin> set ts" "distinct ts" "set ts = set (occupied_tags (blocks s))"
    "length ts = length (occupied_tags (blocks s))" "n + length ts = length (blocks s)"
    by (rule wf_set_repr)
  have "length (occupied_tags (blocks s)) = length (blocks s)"
    using occupied_tags_all [OF k(2)] by simp
  then have n: "n = 0" using r(5,6) by simp
  have ne: "ts \<noteq> []" using r(6) n k(1) by auto
  then obtain h ts' where ts: "ts = h # ts'" by (cases ts) auto
  have h: "tag (blocks s ! k) = h" using lru by (simp add: r(1) n ts)
  have ok: "occupied (blocks s ! k)" using first_free_None [OF k(2)] k(1) by simp
  let ?A = "occupied_tags (take k (blocks s))"
  let ?B = "occupied_tags (drop (Suc k) (blocks s))"
  have occ: "occupied_tags (blocks s) = ?A @ [h] @ ?B"
    using occupied_tags_split [OF k(1)] ok h by simp
  have occ': "occupied_tags (blocks s') = ?A @ [t] @ ?B"
    using occupied_tags_update [OF k(1), of b'] b' by (simp add: bs)
  have d: "distinct (?A @ [h] @ ?B)" using wf by (simp add: wf_set_def occ)
  show ?thesis
  proof (rule wf_set_queueI [where n = 0 and ts = "ts' @ [t]"])
    show "blocks s' \<noteq> []" using wf by (simp add: bs wf_set_def)
    show "tq_size (tag_queue s') = int (length (blocks s'))" using wf by (simp add: bs q wf_set_def)
    show "set_block_size s' \<noteq> 0" using wf by (simp add: z wf_set_def)
    show "\<forall>b \<in> set (blocks s'). 4 \<le> length (word b)"
      unfolding bs using wf b'(3) by (intro words_update) (simp_all add: wf_set_def)
    show "queue (tag_queue s') = replicate 0 (- 1) @ ts' @ [t]" by (simp add: q r(1) n ts)
    show "0 + length (ts' @ [t]) = length (blocks s')" using r(6) n by (simp add: bs ts)
    show "- 1 \<notin> set (ts' @ [t])" using r(2) t(2) by (auto simp: ts)
    show "distinct (ts' @ [t])" using r(3,4) t(1) by (auto simp: ts)
    show "distinct (occupied_tags (blocks s'))"
      using d t(1) unfolding occ' by (auto simp: occ)
    show "set (ts' @ [t]) = set (occupied_tags (blocks s'))"
      unfolding occ' using r(3,4) d by (auto simp: occ ts)
  qed
qed

lemma read_from_memory_free:
  assumes wf: "wf_set s" and ff: "first_free (blocks s) = Some k"
    and t: "t \<notin> set (occupied_tags (blocks s))" "t \<noteq> - 1"
    and a: "0 \<le> a" "a + 4 \<le> int (length m)"
  shows "\<exists>d v s'. CacheSet_read_from_memory m s a t off = (Inr d, m, s') \<and> wf_set s' \<and>
           k < length (blocks s') \<and> occupied (blocks s' ! k) \<and> tag (blocks s' ! k) = t \<and>
           last (queue (tag_queue s')) = t \<and>
           d ''word'' = Some (PInt v) \<and> get_word_dec (blocks s' ! k) = Inr v \<and>
           d ''write_back'' = None"
proof -
  let ?q = "queue (tag_queue s)"
  have k: "k < length (blocks s)" "\<not> occupied (blocks s ! k)"
    using first_free_Some [OF ff] by simp_all
  obtain b' where rb: "CacheBlock_read_from_memory m (blocks s ! k) a t = (Inr (), b')"
    and b': "occupied b'" "tag b' = t" "length (word b') = length (word (blocks s ! k))"
    using read_from_memory_ok [OF a word_length_nth [OF wf k(1)], of t] by blast
  have wl: "4 \<le> length (word b')" using b'(3) word_length_nth [OF wf k(1)] by simp
  have qne: "?q \<noteq> []" using wf by (auto simp: wf_set_def)
  have uq: "update_queue (tag_queue s) t = (Inr False, (tag_queue s)\<lparr>queue := tl ?q @ [t]\<rparr>)"
    using wf absent_tag_not_in_queue [OF wf t] qne
    by (intro update_queue_absent) (simp_all add: wf_set_def)
  define s' where "s' = s\<lparr>last_write_address := - 1, blocks := (blocks s)[k := b'],
      evicted_tag := - 1, evicted_block_index := - 1,
      tag_queue := (tag_queue s)\<lparr>queue := tl ?q @ [t]\<rparr>\<rparr>"
  have f: "blocks s' = (blocks s)[k := b']" "set_block_size s' = set_block_size s"
    "tag_queue s' = (tag_queue s)\<lparr>queue := tl ?q @ [t]\<rparr>"
    by (simp_all add: s'_def)
  have wf': "wf_set s'"
    by (rule wf_set_install_free [OF wf k t b'(1,2) wl f])
  obtain v where v: "get_word_dec b' = Inr v" using get_word_dec_ok [OF wl] by blast
  have bs: "set_block_size s' \<noteq> 0" using wf' by (simp add: wf_set_def)
  obtain d where d: "add_basic_operation_details s' [''replace_details'' \<mapsto> PNone, ''word'' \<mapsto> PInt v] a off t = Inr d"
    "d ''word'' = Some (PInt v)" "d ''write_back'' = None"
    using add_basic_ok [OF bs, of "[''replace_details'' \<mapsto> PNone, ''word'' \<mapsto> PInt v]" a off t]
    by auto
  have res: "CacheSet_read_from_memory m s a t off = (Inr d, m, s')"
    using k(1) d(1) v
    by (simp add: CacheSet_read_from_memory_def find_free_block_def ff rb uq Let_def s'_def)
  have "blocks s' ! k = b'" using k(1) by (simp add: f)
  then show ?thesis using res wf' k(1) b' d v by (simp add: f)
qed

lemma read_from_memory_full:
  assumes wf: "wf_set s" and ff: "first_free (blocks s) = None"
    and t: "t \<notin> set (occupied_tags (blocks s))" "t \<noteq> - 1"
    and a: "0 \<le> a" "a + 4 \<le> int (length m)"
  shows "\<exists>d v m' s' k. CacheSet_read_from_memory m s a t off = (Inr d, m', s') \<and> wf_set s' \<and>
           length m' = length m \<and>
           k < length (blocks s') \<and> occupied (blocks s' ! k) \<and> tag (blocks s' ! k) = t \<and>
           last (queue (tag_queue s')) = t \<and>
           d ''word'' = Some (PInt v) \<and> get_word_dec (blocks s' ! k) = Inr v \<and>
           (d ''write_back'' = Some PNone \<longrightarrow> m' = m) \<and> d ''write_back'' \<noteq> None"
proof -
  let ?q = "queue (tag_queue s)"
  let ?s0 = "s\<lparr>last_write_address := - 1\<rparr>"
  from wf obtain n ts where r: "?q = replicate n (- 1) @ ts"
    "set ts = set (occupied_tags (blocks s))"
    "length ts = length (occupied_tags (blocks s))" "n + length ts = length (blocks s)"
    by (rule wf_set_repr)
  have bne: "blocks s \<noteq> []" using wf by (simp add: wf_set_def)
  have "length (occupied_tags (blocks s)) = length (blocks s)"
    using occupied_tags_all [OF ff] by simp
  then have n: "n = 0" using r(3,4) by simp
  have qne: "?q \<noteq> []" using wf by (auto simp: wf_set_def)
  have lru: "get_least_recently_used (tag_queue s) = Inr (hd ?q)"
    using qne by (cases ?q) (simp_all add: get_least_recently_used_def py_get_def py_index_def)
  have "hd ?q \<in> set ?q" using qne by (rule hd_in_set)
  then have "hd ?q \<in> set (occupied_tags (blocks s))"
    using r(1,2) n by simp
  then obtain k where k: "k < length (blocks s)" "find_block_index s (hd ?q) = int k"
    "occupied (blocks s ! k)" "tag (blocks s ! k) = hd ?q"
    using find_block_index_hit by blast
  have fi: "find_block_index ?s0 (hd ?q) = int k" using k(2) by (simp add: find_block_index_def)
  have pi: "py_index (blocks s) (int k) = Inr k" using k(1) by (simp add: py_index_nonneg)
  let ?lb = "blocks s ! k"
  have wlb: "4 \<le> length (word ?lb)" by (rule word_length_nth [OF wf k(1)])
  have zs: "set_block_size s \<noteq> 0" using wf by (simp add: wf_set_def)
  \<comment> \<open>the flush\<close>
  obtain od m' sa where fl:
    "(if set_write_back ?s0 \<and> dirty ?lb then
        (case CacheBlock_write_to_memory m ?lb a of
           (Inl e, memory') \<Rightarrow> (Inl e, memory', ?s0)
         | (Inr u, memory') \<Rightarrow>
             let s1 = ?s0\<lparr>last_write_address := a\<rparr> in
             (case find_range a (set_block_size s1) of
                Inl e \<Rightarrow> (Inl e, memory', s1)
              | Inr r \<Rightarrow>
                  (Inr (Map.empty(''write_back'' \<mapsto>
                          PDict [(''lower_limit'', PInt (fst r)),
                                 (''upper_limit'', PInt (snd r))])),
                   memory', s1)))
      else (Inr (Map.empty(''write_back'' \<mapsto> PNone)), m, ?s0)) = (Inr od, m', sa)"
    and od: "od ''write_back'' \<noteq> None" "od ''write_back'' = Some PNone \<longrightarrow> m' = m"
    and m': "length m' = length m"
    and sa: "blocks sa = blocks s" "tag_queue sa = tag_queue s" "set_block_size sa = set_block_size s"
  proof (cases "set_write_back ?s0 \<and> dirty ?lb")
    case True
    obtain mw where mw: "CacheBlock_write_to_memory m ?lb a = (Inr (), mw)" "length mw = length m"
      using write_to_memory_ok [OF a wlb] by blast
    obtain rr where rr: "find_range a (set_block_size s) = Inr rr" using find_range_ok [OF zs] by blast
    show ?thesis
      by (rule that [of "Map.empty(''write_back'' \<mapsto>
                          PDict [(''lower_limit'', PInt (fst rr)), (''upper_limit'', PInt (snd rr))])"
                     mw "s\<lparr>last_write_address := a\<rparr>"])
         (use True mw rr in \<open>simp_all add: Let_def\<close>)
  next
    case False
    show ?thesis
      by (rule that [of "Map.empty(''write_back'' \<mapsto> PNone)" m ?s0]) (use False in auto)
  qed
  have a': "a + 4 \<le> int (length m')" using a(2) m' by simp
  have wc: "4 \<le> length (word (clear_block ?lb))" by (simp add: clear_block_def)
  obtain b' where rb: "CacheBlock_read_from_memory m' (clear_block ?lb) a t = (Inr (), b')"
    and b': "occupied b'" "tag b' = t" "length (word b') = length (word (clear_block ?lb))"
    using read_from_memory_ok [OF a(1) a' wc, of t] by blast
  have wl: "4 \<le> length (word b')" using b'(3) wc by simp
  have uq: "update_queue (tag_queue s) t = (Inr False, (tag_queue s)\<lparr>queue := tl ?q @ [t]\<rparr>)"
    using wf absent_tag_not_in_queue [OF wf t] qne
    by (intro update_queue_absent) (simp_all add: wf_set_def)
  define s' where "s' = sa\<lparr>blocks := (blocks sa)[k := b'],
      tag_queue := (tag_queue s)\<lparr>queue := tl ?q @ [t]\<rparr>\<rparr>"
  have f: "blocks s' = (blocks s)[k := b']" "set_block_size s' = set_block_size s"
    "tag_queue s' = (tag_queue s)\<lparr>queue := tl ?q @ [t]\<rparr>"
    by (simp_all add: s'_def sa)
  have wf': "wf_set s'"
    by (rule wf_set_install_full [OF wf k(1) ff k(4) t b'(1,2) wl f])
  obtain v where v: "get_word_dec b' = Inr v" using get_word_dec_ok [OF wl] by blast
  have bs: "set_block_size s' \<noteq> 0" using wf' by (simp add: wf_set_def)
  let ?od = "od(''replace_details'' \<mapsto> PDict [(''evict_tag'', PInt (hd ?q)), (''evict_index'', PInt (int k))],
                ''word'' \<mapsto> PInt v)"
  obtain d where d: "add_basic_operation_details s' ?od a off t = Inr d"
    "d ''word'' = Some (PInt v)" "d ''write_back'' = od ''write_back''"
    using add_basic_ok [OF bs, of ?od a off t] by auto
  have rp: "replace_cache_block m ?s0 a t Map.empty =
      (Inr (k, od(''replace_details'' \<mapsto> PDict [(''evict_tag'', PInt (hd ?q)), (''evict_index'', PInt (int k))])),
       m', sa\<lparr>blocks := (blocks sa)[k := b']\<rparr>)"
    using fl rb by (simp add: replace_cache_block_def lru fi pi Let_def sa)
  have res: "CacheSet_read_from_memory m s a t off = (Inr d, m', s')"
    using k(1) d(1) v
    by (simp add: CacheSet_read_from_memory_def find_free_block_def ff rp uq sa Let_def s'_def)
  have "blocks s' ! k = b'" using k(1) by (simp add: f)
  then show ?thesis using res wf' k(1) b' d v od m' by (auto simp: f)
qed

lemma read_from_memory_miss:
  assumes wf: "wf_set s" and miss: "find_block_index s t = - 1" and t: "t \<noteq> - 1"
    and a: "0 \<le> a" "a + 4 \<le> int (length m)"
  shows "\<exists>d v m' s' k. CacheSet_read_from_memory m s a t off = (Inr d, m', s') \<and> wf_set s' \<and>
           length m' = length m \<and> find_block_index s' t = int k \<and>
           last (queue (tag_queue s')) = t \<and>
           d ''word'' = Some (PInt v) \<and> get_word_dec (blocks s' ! k) = Inr v \<and>
           (d ''write_back'' = None \<or> d ''write_back'' = Some PNone \<longrightarrow> m' = m)"
proof -
  have na: "t \<notin> set (occupied_tags (blocks s))" using miss by (rule find_block_index_miss)
  show ?thesis
  proof (cases "first_free (blocks s)")
    case None
    from read_from_memory_full [OF wf None na t a, of off]
    obtain d v m' s' k where r: "CacheSet_read_from_memory m s a t off = (Inr d, m', s')" "wf_set s'"
      "length m' = length m" "k < length (blocks s')" "occupied (blocks s' ! k)" "tag (blocks s' ! k) = t"
      "last (queue (tag_queue s')) = t" "d ''word'' = Some (PInt v)" "get_word_dec (blocks s' ! k) = Inr v"
      "d ''write_back'' = Some PNone \<longrightarrow> m' = m" "d ''write_back'' \<noteq> None"
      by blast
    have fi: "find_block_index s' t = int k" using r(2,4,5,6) by (rule find_block_index_unique)
    have w: "d ''write_back'' = None \<or> d ''write_back'' = Some PNone \<longrightarrow> m' = m"
      using r(10,11) by auto
    show ?thesis
      by (rule exI [where x = d], rule exI [where x = v], rule exI [where x = m'],
          rule exI [where x = s'], rule exI [where x = k])
         (intro conjI r(1,2,3) fi r(7,8,9) w)
  next
    case (Some k)
    from read_from_memory_free [OF wf Some na t a, of off]
    obtain d v s' where r: "CacheSet_read_from_memory m s a t off = (Inr d, m, s')" "wf_set s'"
      "k < length (blocks s')" "occupied (blocks s' ! k)" "tag (blocks s' ! k) = t"
      "last (queue (tag_queue s')) = t" "d ''word'' = Some (PInt v)" "get_word_dec (blocks s' ! k) = Inr v"
      by blast
    have fi: "find_block_index s' t = int k" using r(2,3,4,5) by (rule find_block_index_unique)
    have w: "d ''write_back'' = None \<or> d ''write_back'' = Some PNone \<longrightarrow> m = m" by simp
    show ?thesis
      by (rule exI [where x = d], rule exI [where x = v], rule exI [where x = m],
          rule exI [where x = s'], rule exI [where x = k])
         (intro conjI r(1,2) refl fi r(6,7,8) w)
  qed
qed

lemma wf_set_rewrite_word:
  assumes wf: "wf_set s" and b: "tag b = tag (blocks s ! k)" "occupied b = occupied (blocks s ! k)"
    "4 \<le> length (word b)"
    and f: "blocks s' = (blocks s)[k := b]" "tag_queue s' = tag_queue s" "set_block_size s' = set_block_size s"
  shows "wf_set s'"
proof -
  from wf obtain n ts where r: "queue (tag_queue s) = replicate n (- 1) @ ts"
    "- 1 \<notin> set ts" "distinct ts" "set ts = set (occupied_tags (blocks s))"
    "n + length ts = length (blocks s)"
    by (rule wf_set_repr)
  have occ: "occupied_tags (blocks s') = occupied_tags (blocks s)"
    unfolding f(1) using b(1,2) by (rule occupied_tags_same)
  show ?thesis
  proof (rule wf_set_queueI [where n = n and ts = ts])
    show "blocks s' \<noteq> []" using wf by (simp add: f wf_set_def)
    show "tq_size (tag_queue s') = int (length (blocks s'))" using wf by (simp add: f wf_set_def)
    show "set_block_size s' \<noteq> 0" using wf by (simp add: f wf_set_def)
    show "\<forall>x \<in> set (blocks s'). 4 \<le> length (word x)"
      unfolding f(1) using wf b(3) by (intro words_update) (simp_all add: wf_set_def)
    show "queue (tag_queue s') = replicate n (- 1) @ ts" by (simp add: f r(1))
    show "n + length ts = length (blocks s')" using r(5) by (simp add: f)
    show "- 1 \<notin> set ts" by (rule r(2))
    show "distinct ts" by (rule r(3))
    show "distinct (occupied_tags (blocks s'))" unfolding occ using wf by (simp add: wf_set_def)
    show "set ts = set (occupied_tags (blocks s'))" unfolding occ by (rule r(4))
  qed
qed

lemma write_to_cache_wf:
  assumes wf: "wf_set s" and bi: "bi = - 1 \<or> (0 \<le> bi \<and> bi < int (length (blocks s)))"
    and w: "4 \<le> length w" and a: "0 \<le> a" "a + 4 \<le> int (length m)"
  shows "\<exists>d m' s'. CacheSet_write_to_cache m s a t bi off w wb = (Inr d, m', s') \<and> wf_set s' \<and>
           length m' = length m"
proof -
  have bne: "blocks s \<noteq> []" and zs: "set_block_size s \<noteq> 0" using wf by (simp_all add: wf_set_def)
  obtain k where pi: "py_index (blocks s) bi = Inr k" and k: "k < length (blocks s)"
    using bi bne py_index_last [OF bne] by (auto simp: py_index_nonneg)
  obtain od where od: "add_basic_operation_details s Map.empty a off t = Inr od"
    using add_basic_ok [OF zs] by blast
  show ?thesis
  proof (cases wb)
    case True
    let ?b = "(CacheBlock_write_to_cache (blocks s ! k) w)\<lparr>dirty := True\<rparr>"
    let ?s = "s\<lparr>blocks := (blocks s)[k := ?b]\<rparr>"
    have wl: "4 \<le> length (word ?b)" using w by (simp add: CacheBlock_write_to_cache_def)
    obtain v where v: "get_word_dec ?b = Inr v" using get_word_dec_ok [OF wl] by blast
    have "wf_set ?s"
      by (rule wf_set_rewrite_word [OF wf _ _ wl]) (simp_all add: CacheBlock_write_to_cache_def)
    then show ?thesis
      using True od pi v by (simp add: CacheSet_write_to_cache_def write_to_cache_wb_def Let_def)
  next
    case False
    let ?b = "CacheBlock_write_to_cache (blocks s ! k) w"
    let ?s = "s\<lparr>blocks := (blocks s)[k := ?b]\<rparr>"
    have wl: "4 \<le> length (word ?b)" using w by (simp add: CacheBlock_write_to_cache_def)
    obtain v where v: "get_word_dec ?b = Inr v" using get_word_dec_ok [OF wl] by blast
    obtain m' where m': "CacheBlock_write_to_memory m ?b a = (Inr (), m')" "length m' = length m"
      using write_to_memory_ok [OF a wl] by blast
    have "wf_set ?s"
      by (rule wf_set_rewrite_word [OF wf _ _ wl]) (simp_all add: CacheBlock_write_to_cache_def)
    then show ?thesis
      using False od pi v m' by (simp add: CacheSet_write_to_cache_def write_to_cache_wt_def Let_def)
  qed
qed

lemma split_address_ok:
  assumes "wf_cache c" and "0 \<le> a" and "split_address c a = (off, idx, t)"
  shows "0 \<le> idx \<and> idx < int (length (sets c)) \<and> 0 \<le> t"
proof -
  have i: "0 \<le> index_size c" and o: "0 \<le> block_offset_size c"
    and l: "2 ^ nat (index_size c) \<le> int (length (sets c))"
    using assms(1) by (simp_all add: wf_cache_def)
  have idx: "idx = a div 2 ^ nat (block_offset_size c) mod 2 ^ nat (index_size c)"
    and t: "t = a div 2 ^ nat (block_offset_size c) div 2 ^ nat (index_size c)"
    using assms(3) i o by (simp_all add: split_address_def mod_pow2_def floordiv_pow2_def Let_def)
  have "0 \<le> idx" unfolding idx by simp
  moreover have "idx < 2 ^ nat (index_size c)" unfolding idx by simp
  moreover have "0 \<le> t" unfolding t using assms(2) by (simp add: pos_imp_zdiv_nonneg_iff)
  ultimately show ?thesis using l by linarith
qed

lemma wf_cache_update:
  assumes "wf_cache c" and "wf_set s'"
    and "sets c' = (sets c)[k := s']" and "index_size c' = index_size c"
    and "block_offset_size c' = block_offset_size c"
  shows "wf_cache c'"
  using assms set_update_subset_insert [of "sets c" k s']
  by (auto simp: wf_cache_def)

subsection \<open>The cache and the simulator\<close>

lemma wf_cache_nth: "wf_cache c \<Longrightarrow> k < length (sets c) \<Longrightarrow> wf_set (sets c ! k)"
  by (simp add: wf_cache_def)

lemma Cache_read_first:
  assumes wf: "wf_cache c" and a: "0 \<le> a" "a + 4 \<le> int (length (memory c))"
  shows "\<exists>d c' v. Cache_read c a = (Inr d, c') \<and> wf_cache c' \<and>
           length (memory c') = length (memory c) \<and> write_back c' = write_back c \<and>
           d ''word'' = Some (PInt v) \<and> resident c' a v \<and>
           (d ''write_back'' = None \<or> d ''write_back'' = Some PNone \<longrightarrow> memory c' = memory c)"
proof -
  obtain off idx t where sp: "split_address c a = (off, idx, t)"
    by (cases "split_address c a") auto
  from split_address_ok [OF wf a(1) sp]
  have idx: "0 \<le> idx" "idx < int (length (sets c))" and t: "0 \<le> t" by simp_all
  let ?k = "nat idx"
  let ?s = "sets c ! ?k"
  have k: "?k < length (sets c)" using idx by simp
  have pi: "py_index (sets c) idx = Inr ?k" using idx by (simp add: py_index_nonneg)
  have ws: "wf_set ?s" using wf k by (rule wf_cache_nth)
  have t1: "t \<noteq> - 1" using t by simp
  show ?thesis
  proof (cases "find_block_index ?s t = - 1")
    case True
    from read_from_memory_miss [OF ws True t1 a, of off]
    obtain d v m' s' j where r: "CacheSet_read_from_memory (memory c) ?s a t off = (Inr d, m', s')"
      "wf_set s'" "length m' = length (memory c)" "find_block_index s' t = int j"
      "last (queue (tag_queue s')) = t" "d ''word'' = Some (PInt v)"
      "get_word_dec (blocks s' ! j) = Inr v"
      "d ''write_back'' = None \<or> d ''write_back'' = Some PNone \<longrightarrow> m' = memory c"
      by blast
    let ?c = "c\<lparr>memory := m', sets := (sets c)[?k := s']\<rparr>"
    let ?d = "[''hit_or_miss'' \<mapsto> PStr ''miss''] ++ d"
    have res: "Cache_read c a = (Inr ?d, ?c)"
      using True r(1) by (simp add: Cache_read_def sp pi Let_def)
    have wc: "wf_cache ?c" by (rule wf_cache_update [OF wf r(2)]) simp_all
    have sp': "split_address ?c a = (off, idx, t)" using sp by (simp add: split_address_def)
    have rs: "resident ?c a v"
      using k r(4,5,7) by (simp add: resident_def sp')
    have dw: "?d ''word'' = Some (PInt v)" using r(6) by (simp add: map_add_def)
    have db: "?d ''write_back'' = d ''write_back''" by (simp add: map_add_def split: option.splits)
    have mm: "?d ''write_back'' = None \<or> ?d ''write_back'' = Some PNone \<longrightarrow> memory ?c = memory c"
      unfolding db using r(8) by simp
    show ?thesis
      by (rule exI [where x = ?d], rule exI [where x = ?c], rule exI [where x = v])
         (intro conjI res wc dw rs mm, simp_all add: r(3))
  next
    case False
    with find_block_index_cases [of ?s t]
    obtain j where j: "j < length (blocks ?s)" "find_block_index ?s t = int j"
      "occupied (blocks ?s ! j)" "tag (blocks ?s ! j) = t" "t \<in> set (occupied_tags (blocks ?s))"
      by blast
    let ?s' = "?s\<lparr>tag_queue := (tag_queue ?s)\<lparr>queue := remove1 t (queue (tag_queue ?s)) @ [t]\<rparr>\<rparr>"
    from read_from_cache_hit [OF ws j(1,3,4), of a off]
    obtain d v where r: "CacheSet_read_from_cache ?s a t (int j) off = (Inr d, ?s')"
      "d ''word'' = Some (PInt v)" "get_word_dec (blocks ?s ! j) = Inr v" "d ''write_back'' = None"
      by blast
    let ?c = "c\<lparr>sets := (sets c)[?k := ?s']\<rparr>"
    let ?d = "[''hit_or_miss'' \<mapsto> PStr ''hit''] ++ d"
    have res: "Cache_read c a = (Inr ?d, ?c)"
      using False r(1) j(2) by (simp add: Cache_read_def sp pi Let_def)
    have ws': "wf_set ?s'" by (rule wf_set_touch [OF ws j(5)]) simp_all
    have wc: "wf_cache ?c" by (rule wf_cache_update [OF wf ws']) simp_all
    have sp': "split_address ?c a = (off, idx, t)" using sp by (simp add: split_address_def)
    have fi: "find_block_index ?s' t = int j" using j(2) by (simp add: find_block_index_def)
    have rs: "resident ?c a v"
      using k fi r(3) by (simp add: resident_def sp')
    have dw: "?d ''word'' = Some (PInt v)" using r(2) by (simp add: map_add_def)
    have db: "?d ''write_back'' = None" using r(4) by (simp add: map_add_def)
    show ?thesis
      by (rule exI [where x = ?d], rule exI [where x = ?c], rule exI [where x = v])
         (intro conjI res wc dw rs, simp_all add: db)
  qed
qed


lemma Cache_write_wf:
  assumes wf: "wf_cache c" and a: "0 \<le> a" "a + 4 \<le> int (length (memory c))"
    and w: "4 \<le> length w"
  shows "\<exists>d c'. Cache_write c a w = (Inr d, c') \<and> wf_cache c' \<and>
           length (memory c') = length (memory c) \<and> write_back c' = write_back c"
proof -
  obtain off idx t where sp: "split_address c a = (off, idx, t)"
    by (cases "split_address c a") auto
  from split_address_ok [OF wf a(1) sp]
  have idx: "0 \<le> idx" "idx < int (length (sets c))" and t: "0 \<le> t" by simp_all
  let ?k = "nat idx"
  let ?s = "sets c ! ?k"
  have k: "?k < length (sets c)" using idx by simp
  have pi: "py_index (sets c) idx = Inr ?k" using idx by (simp add: py_index_nonneg)
  have ws: "wf_set ?s" using wf k by (rule wf_cache_nth)
  have t1: "t \<noteq> - 1" using t by simp
  show ?thesis
  proof (cases "find_block_index ?s t = - 1")
    case True
    from read_from_memory_miss [OF ws True t1 a, of off]
    obtain d1 m1 s1 where r: "CacheSet_read_from_memory (memory c) ?s a t off = (Inr d1, m1, s1)"
      "wf_set s1" "length m1 = length (memory c)"
      by blast
    have a1: "a + 4 \<le> int (length m1)" using a(2) r(3) by simp
    from write_to_cache_wf [OF r(2) _ w a(1) a1, of "- 1" t off "write_back c"]
    obtain d2 m2 s2 where r2: "CacheSet_write_to_cache m1 s1 a t (- 1) off w (write_back c) = (Inr d2, m2, s2)"
      "wf_set s2" "length m2 = length m1"
      by auto
    let ?c = "c\<lparr>memory := m2, sets := (sets c)[?k := s2]\<rparr>"
    have res: "Cache_write c a w = (Inr ([''hit_or_miss'' \<mapsto> PStr ''miss''] ++ d2), ?c)"
      using True r(1) r2(1) by (simp add: Cache_write_def sp pi Let_def)
    have wc: "wf_cache ?c" by (rule wf_cache_update [OF wf r2(2)]) simp_all
    show ?thesis using res wc r(3) r2(3) by simp
  next
    case False
    with find_block_index_cases [of ?s t]
    obtain j where j: "j < length (blocks ?s)" "find_block_index ?s t = int j" by blast
    have bi: "int j = - 1 \<or> 0 \<le> int j \<and> int j < int (length (blocks ?s))" using j(1) by simp
    from write_to_cache_wf [OF ws bi w a, of t off "write_back c"]
    obtain d2 m2 s2 where r2: "CacheSet_write_to_cache (memory c) ?s a t (int j) off w (write_back c) = (Inr d2, m2, s2)"
      "wf_set s2" "length m2 = length (memory c)"
      by auto
    let ?c = "c\<lparr>memory := m2, sets := (sets c)[?k := s2]\<rparr>"
    have res: "Cache_write c a w = (Inr ([''hit_or_miss'' \<mapsto> PStr ''hit''] ++ d2), ?c)"
      using False r2(1) j(2) by (simp add: Cache_write_def sp pi Let_def)
    have wc: "wf_cache ?c" by (rule wf_cache_update [OF wf r2(2)]) simp_all
    show ?thesis using res wc r2(3) by simp
  qed
qed

lemma aligned_room: "0 \<le> a \<Longrightarrow> a < m \<Longrightarrow> a mod 4 = 0 \<Longrightarrow> m mod 4 = 0 \<Longrightarrow> a + 4 \<le> (m::int)"
  by presburger

lemma sim_read_first:
  assumes wf: "wf_sim sim" and a: "0 \<le> a" "a < memory_size sim" "a mod 4 = 0"
  shows "\<exists>d sim' v. CacheSim_read sim a = (Inr (''read'', d), sim') \<and> wf_sim sim' \<and>
           memory_size sim' = memory_size sim \<and>
           d ''word'' = Some (PInt v) \<and> resident (cache sim') a v \<and>
           (d ''write_back'' = None \<or> d ''write_back'' = Some PNone \<longrightarrow>
              memory (cache sim') = memory (cache sim))"
proof -
  have wc: "wf_cache (cache sim)" and ms: "memory_size sim = int (length (memory (cache sim)))"
    and m4: "memory_size sim mod 4 = 0"
    using wf unfolding wf_sim_def by blast+
  have room: "a + 4 \<le> int (length (memory (cache sim)))"
    using aligned_room [OF a m4] ms by simp
  from Cache_read_first [OF wc a(1) room]
  obtain d c' v where r: "Cache_read (cache sim) a = (Inr d, c')" "wf_cache c'"
    "length (memory c') = length (memory (cache sim))"
    "d ''word'' = Some (PInt v)" "resident c' a v"
    "d ''write_back'' = None \<or> d ''write_back'' = Some PNone \<longrightarrow> memory c' = memory (cache sim)"
    by blast
  let ?sim = "sim\<lparr>cache := c'\<rparr>"
  have res: "CacheSim_read sim a = (Inr (''read'', d), ?sim)"
    using a r(1) by (simp add: CacheSim_read_def)
  have ws: "wf_sim ?sim" using r(2,3) ms m4 by (simp add: wf_sim_def)
  show ?thesis
    by (rule exI [where x = d], rule exI [where x = ?sim], rule exI [where x = v])
       (use res ws r(4,5,6) in simp)
qed


lemma sim_write_wf:
  assumes wf: "wf_sim sim" and a: "0 \<le> a" "a < memory_size sim" "a mod 4 = 0"
  shows "\<exists>d sim'. CacheSim_write sim a w = (Inr (''write'', d), sim') \<and> wf_sim sim' \<and>
           memory_size sim' = memory_size sim"
proof -
  have wc: "wf_cache (cache sim)" and ms: "memory_size sim = int (length (memory (cache sim)))"
    and m4: "memory_size sim mod 4 = 0"
    using wf unfolding wf_sim_def by blast+
  have room: "a + 4 \<le> int (length (memory (cache sim)))"
    using aligned_room [OF a m4] ms by simp
  have l: "4 \<le> length (int_to_bytearray w)" by (simp add: int_to_bytearray_def)
  from Cache_write_wf [OF wc a(1) room l]
  obtain d c' where r: "Cache_write (cache sim) a (int_to_bytearray w) = (Inr d, c')" "wf_cache c'"
    "length (memory c') = length (memory (cache sim))"
    by blast
  let ?sim = "sim\<lparr>cache := c'\<rparr>"
  have res: "CacheSim_write sim a w = (Inr (''write'', d), ?sim)"
    using a r(1) by (simp add: CacheSim_write_def)
  have ws: "wf_sim ?sim" using r(2,3) ms m4 by (simp add: wf_sim_def)
  show ?thesis using res ws by simp
qed

lemma run_op_wf:
  assumes wf: "wf_sim sim" and a: "0 \<le> op_address op" "op_address op < memory_size sim"
    "op_address op mod 4 = 0"
  shows "\<exists>r sim'. run_op sim op = (Inr r, sim') \<and> wf_sim sim' \<and> memory_size sim' = memory_size sim"
proof (cases op)
  case (Read x)
  then show ?thesis using sim_read_first [OF wf, of x] a by auto
next
  case (Write x w)
  then show ?thesis using sim_write_wf [OF wf, of x w] a by auto
qed

lemma run_ops_wf:
  assumes "wf_sim sim"
    and "\<forall>op \<in> set ops. 0 \<le> op_address op \<and> op_address op < memory_size sim \<and> op_address op mod 4 = 0"
  shows "wf_sim (snd (run_ops sim ops)) \<and> memory_size (snd (run_ops sim ops)) = memory_size sim"
  using assms
proof (induction ops arbitrary: sim)
  case Nil
  then show ?case by simp
next
  case (Cons op ops)
  from Cons.prems obtain r sim' where s: "run_op sim op = (Inr r, sim')" "wf_sim sim'"
    "memory_size sim' = memory_size sim"
    using run_op_wf [of sim op] by auto
  have "wf_sim (snd (run_ops sim' ops)) \<and> memory_size (snd (run_ops sim' ops)) = memory_size sim'"
    using Cons.prems(2) s(3) by (intro Cons.IH [OF s(2)]) simp
  then show ?case using s by (simp add: case_prod_beta)
qed

subsection \<open>Construction and scripts\<close>

lemma fill_memory_ok:
  "\<forall>i \<in> set is. 0 \<le> i \<and> i + 4 \<le> int (length mem) \<Longrightarrow>
   \<exists>mem'. fill_memory is mem = Inr mem' \<and> length mem' = length mem"
proof (induction "is" arbitrary: mem)
  case Nil
  then show ?case by simp
next
  case (Cons i rest)
  have l: "4 \<le> length (int_to_bytearray i)" by (simp add: int_to_bytearray_def)
  from Cons.prems have i: "0 \<le> i" "i + 4 \<le> int (length mem)" by simp_all
  from store_word_ok [OF i l]
  obtain mem1 where s: "store_word (int_to_bytearray i) i [0, 1, 2, 3] mem = (Inr (), mem1)"
    "length mem1 = length mem"
    by blast
  have "\<forall>j \<in> set rest. 0 \<le> j \<and> j + 4 \<le> int (length mem1)" using Cons.prems s(2) by simp
  from Cons.IH [OF this] obtain mem' where "fill_memory rest mem1 = Inr mem'" "length mem' = length mem1"
    by blast
  then show ?case using s by (simp add: py_range_4 del: store_word.simps)
qed

lemma py_range4_bounds:
  assumes "m mod 4 = 0" and "i \<in> set (py_range4 m)"
  shows "0 \<le> i \<and> i + 4 \<le> m"
proof -
  from assms(2) obtain k where k: "i = 4 * int k" "k < nat ((m + 3) div 4)"
    by (auto simp: py_range4_def)
  then have "int k < (m + 3) div 4" by linarith
  then show ?thesis using assms(1) k(1) by presburger
qed

lemma pow2_mod4:
  assumes "2 \<le> a_size"
  shows "(2::int) ^ nat a_size mod 4 = 0"
proof -
  have e: "nat a_size = 2 + (nat a_size - 2)" using assms by linarith
  have "(2::int) ^ nat a_size = 2 ^ 2 * 2 ^ (nat a_size - 2)"
    by (subst e) (rule power_add)
  then show ?thesis by simp
qed

lemma wf_fresh_set:
  assumes "1 \<le> n" and "32 \<le> b_size"
  shows "wf_set (fresh_set wb n b_size idx)"
proof (rule wf_set_queueI [where n = "nat n" and ts = "[]"])
  let ?s = "fresh_set wb n b_size idx"
  have occ: "occupied_tags (blocks ?s) = []"
    by (simp add: fresh_set_def fresh_block_def occupied_tags_def)
  show "blocks ?s \<noteq> []" using assms(1) by (simp add: fresh_set_def)
  show "tq_size (tag_queue ?s) = int (length (blocks ?s))" using assms(1) by (simp add: fresh_set_def)
  show "set_block_size ?s \<noteq> 0" using assms(2) by (simp add: fresh_set_def)
  have "4 \<le> nat (b_size div 8)" using assms(2) by linarith
  then show "\<forall>b \<in> set (blocks ?s). 4 \<le> length (word b)"
    by (simp add: fresh_set_def fresh_block_def)
  show "queue (tag_queue ?s) = replicate (nat n) (- 1) @ []" by (simp add: fresh_set_def)
  show "nat n + length ([]::int list) = length (blocks ?s)" by (simp add: fresh_set_def)
  show "- 1 \<notin> set ([]::int list)" by simp
  show "distinct ([]::int list)" by simp
  show "distinct (occupied_tags (blocks ?s))" by (simp add: occ)
  show "set ([]::int list) = set (occupied_tags (blocks ?s))" by (simp add: occ)
qed

lemma CacheSim_init_wf:
  assumes "config_ok a_size c_size b_size assoc"
  shows "\<exists>sim. CacheSim_init a_size c_size b_size assoc wb = Inr sim \<and> wf_sim sim \<and>
           memory_size sim = 2 ^ nat a_size"
proof -
  from assms have as: "2 \<le> a_size" and bs: "32 \<le> b_size" and ac: "1 \<le> assoc"
    and cs: "b_size * assoc \<le> c_size"
    by (simp_all add: config_ok_def)
  let ?m = "(2::int) ^ nat a_size"
  have ms: "int_pow2 a_size = ?m" using as by (simp add: int_pow2_def)
  have m4: "?m mod 4 = 0" using as by (rule pow2_mod4)
  have "\<forall>i \<in> set (py_range4 ?m). 0 \<le> i \<and> i + 4 \<le> int (length (replicate (nat ?m) (0::byte)))"
    using py_range4_bounds [OF m4] by simp
  from fill_memory_ok [OF this]
  obtain mem where mem: "fill_memory (py_range4 ?m) (replicate (nat ?m) 0) = Inr mem"
    "length mem = nat ?m"
    by auto
  let ?nb = "c_size div b_size"
  let ?ns = "?nb div assoc"
  let ?bps = "?nb div ?ns"
  have b0: "0 < b_size" and a0: "0 < assoc" using bs ac by simp_all
  note ci = Cache_init_ok [OF b0 a0 cs, of mem a_size wb]
  have nb: "assoc \<le> ?nb"
    using zdiv_mono1 [OF cs b0] b0 by simp
  have ns: "1 \<le> ?ns" using zdiv_mono1 [OF nb a0] a0 by simp
  have "?ns \<le> ?nb div 1" using nb a0 by (intro zdiv_mono2) simp_all
  then have "?ns \<le> ?nb" by simp
  then have bps: "1 \<le> ?bps" using zdiv_mono1 [of ?ns ?nb ?ns] ns by simp
  obtain c where c: "Cache_init mem a_size c_size b_size assoc wb = Inr c"
    and f: "memory c = mem" "index_size c = int (floor_log2 (nat ?ns))"
      "block_offset_size c = int (floor_log2 (nat b_size))"
      "sets c = map (fresh_set wb ?bps b_size) (py_range ?ns)"
    using ci by simp
  have "2 ^ floor_log2 (nat ?ns) \<le> nat ?ns" using ns by (intro floor_log2_le) simp
  then have "int (2 ^ floor_log2 (nat ?ns)) \<le> int (nat ?ns)" by (rule iffD2 [OF of_nat_le_iff])
  then have il: "2 ^ nat (index_size c) \<le> int (length (sets c))"
    by (simp add: f py_range_def)
  have "\<forall>s \<in> set (sets c). wf_set s"
    using wf_fresh_set [OF bps bs] by (auto simp: f)
  then have wc: "wf_cache c" using il by (simp add: wf_cache_def f)
  let ?sim = "\<lparr>sim_address_size = a_size, sim_cache_size = c_size,
                sim_block_size = b_size, sim_associativity = assoc,
                sim_write_back = wb, memory_size = ?m, cache = c\<rparr>"
  have res: "CacheSim_init a_size c_size b_size assoc wb = Inr ?sim"
    using mem(1) c by (simp add: CacheSim_init_def ms Let_def)
  have "wf_sim ?sim" using wc m4 mem(2) f(1) by (simp add: wf_sim_def)
  then show ?thesis using res by simp
qed

lemma booted_wf:
  assumes "config_ok a_size c_size b_size assoc"
  shows "wf_sim (booted a_size c_size b_size assoc wb) \<and>
         memory_size (booted a_size c_size b_size assoc wb) = 2 ^ nat a_size"
  using CacheSim_init_wf [OF assms, of wb] by (auto simp: booted_def)

lemma reached_wf:
  assumes "config_ok a_size c_size b_size assoc"
    and "\<forall>op \<in> set ops. valid_address a_size (op_address op)"
  shows "wf_sim (reached a_size c_size b_size assoc wb ops) \<and>
         memory_size (reached a_size c_size b_size assoc wb ops) = 2 ^ nat a_size"
proof -
  note b = booted_wf [OF assms(1), of wb]
  have "\<forall>op \<in> set ops. 0 \<le> op_address op \<and>
          op_address op < memory_size (booted a_size c_size b_size assoc wb) \<and> op_address op mod 4 = 0"
    using assms(2) b by (simp add: valid_address_def)
  from run_ops_wf [OF conjunct1 [OF b] this] b show ?thesis by (simp add: reached_def)
qed

text \<open>
  The tracker of every set, in every state reached by reads and writes at valid addresses:
  it is as long as the set has blocks, its sentinels come first, and the tags after them
  are, without repetition, exactly the tags of the occupied blocks.
\<close>

lemma tracker_structure:
  assumes "config_ok a_size c_size b_size assoc"
    and "\<forall>op \<in> set ops. valid_address a_size (op_address op)"
    and "s \<in> set (sets (cache (reached a_size c_size b_size assoc wb ops)))"
  shows "length (queue (tag_queue s)) = length (blocks s) \<and>
         (\<exists>n. queue (tag_queue s) = replicate n (- 1) @ tracked (queue (tag_queue s))) \<and>
         - 1 \<notin> set (tracked (queue (tag_queue s))) \<and>
         distinct (tracked (queue (tag_queue s))) \<and>
         set (tracked (queue (tag_queue s))) = set (occupied_tags (blocks s))"
proof -
  have "wf_sim (reached a_size c_size b_size assoc wb ops)"
    using reached_wf [OF assms(1,2), of wb] by simp
  then have "wf_set s" using assms(3) unfolding wf_sim_def wf_cache_def by blast
  then show ?thesis using tracked_repr [of "queue (tag_queue s)"] unfolding wf_set_def by blast
qed





section \<open>Scenarios\<close>

text \<open>
  C1. Claimed: in write-back mode a dirty block that is evicted is flushed to the
  address whose write made it dirty. Scenario: 7-bit addresses, one 32-bit block,
  write-back; \<open>write(32, 7)\<close>, then \<open>read(64)\<close>, which evicts the dirty block. The word 7
  is stored at address 64, the address being read; address 32 still holds its initial
  word 32, and the read of address 64 returns 7. The eviction reports the range of
  address 64 as written back.
\<close>

theorem dirty_eviction_flushes_to_incoming_address:
  "\<not> isl (CacheSim_init 7 32 32 1 True) \<and>
   memory_word (booted 7 32 32 1 True) 32 = [32, 0, 0, 0] \<and>
   memory_word (booted 7 32 32 1 True) 64 = [64, 0, 0, 0] \<and>
   memory_word (snd (run_ops (booted 7 32 32 1 True) [Write 32 7, Read 64])) 32 = [32, 0, 0, 0] \<and>
   memory_word (snd (run_ops (booted 7 32 32 1 True) [Write 32 7, Read 64])) 64 = [7, 0, 0, 0] \<and>
   map (\<lambda>r. (field r ''word'', field r ''write_back''))
       (fst (run_ops (booted 7 32 32 1 True) [Write 32 7, Read 64])) =
     [(Some (PInt 7), Some (PBool True)),
      (Some (PInt 7), Some (PDict [(''lower_limit'', PInt 64), (''upper_limit'', PInt 95)]))]"
  by code_simp

text \<open>
  C2. Claimed: after a write the block that holds the written tag stores the written
  word. Scenario: 7-bit addresses, one set of two 32-bit blocks, write-back;
  \<open>write(32, 7)\<close> on the empty cache. The miss fills block 0 with tag 1 and the word
  read from memory; the word 7 then goes to the last block of the set, block 1, which
  stays unoccupied and becomes dirty. A following \<open>read(32)\<close> hits and returns 32.
\<close>

theorem write_miss_puts_word_in_last_block:
  "\<not> isl (CacheSim_init 7 64 32 2 True) \<and>
   map (\<lambda>b. (occupied b, tag b, word b, dirty b))
       (set_blocks (snd (run_ops (booted 7 64 32 2 True) [Write 32 7])) 0) =
     [(True, 1, [32, 0, 0, 0], False), (False, - 1, [7, 0, 0, 0], True)] \<and>
   int_to_bytearray 7 = [7, 0, 0, 0] \<and>
   map (\<lambda>r. (field r ''hit_or_miss'', field r ''word''))
       (fst (run_ops (booted 7 64 32 2 True) [Write 32 7, Read 32])) =
     [(Some (PStr ''miss''), Some (PInt 7)), (Some (PStr ''hit''), Some (PInt 32))]"
  by code_simp


text \<open>
  C4. Claimed: every access, a write hit included, touches the tracker of its set, so
  that after a write hit on a tag that tag is the most recently used. Scenario: 7-bit
  addresses, one set of two 32-bit blocks; \<open>read(0)\<close>, \<open>read(32)\<close> leave the tracker
  \<open>[0, 1]\<close>; \<open>write(0, 9)\<close> hits tag 0 and leaves the tracker \<open>[0, 1]\<close>: the last entry
  is tag 1.
\<close>

theorem write_hit_does_not_touch_tracker:
  "\<not> isl (CacheSim_init 7 64 32 2 True) \<and>
   set_queue (snd (run_ops (booted 7 64 32 2 True) [Read 0, Read 32])) 0 = [0, 1] \<and>
   map (\<lambda>r. (field r ''hit_or_miss'', field r ''tag''))
       (fst (run_ops (booted 7 64 32 2 True) [Read 0, Read 32, Write 0 9])) =
     [(Some (PStr ''miss''), Some (PInt 0)), (Some (PStr ''miss''), Some (PInt 1)),
      (Some (PStr ''hit''), Some (PInt 0))] \<and>
   set_queue (snd (run_ops (booted 7 64 32 2 True) [Read 0, Read 32, Write 0 9])) 0 = [0, 1] \<and>
   last (set_queue (snd (run_ops (booted 7 64 32 2 True) [Read 0, Read 32, Write 0 9])) 0) = 1"
  by code_simp


text \<open>
  C8. Claimed: an access whose address is outside \<open>[0, 2^address_size)\<close> is rejected
  before any state changes, and every aligned access inside the range completes.
  Scenario: 5-bit addresses (32 bytes of memory), one set of two 32-bit blocks;
  \<open>read(32)\<close>. The address equals the memory size and passes both assertions; block 0 is
  marked occupied with tag 1, then the load raises \<open>IndexError\<close>. A second \<open>read(32)\<close>
  hits that block and returns a result. The misaligned \<open>read(34)\<close> and the \<open>read(36)\<close>
  beyond the memory size are refused by the assertions. Separately, with 16-bit blocks
  the word buffer of a block has two bytes and the aligned, in-range \<open>read(0)\<close> raises
  \<open>IndexError\<close>.
\<close>

theorem read_at_memory_size_passes_assertions:
  "\<not> isl (CacheSim_init 5 64 32 2 True) \<and>
   memory_size (booted 5 64 32 2 True) = 32 \<and>
   length (memory (cache (booted 5 64 32 2 True))) = 32 \<and>
   raised (fst (CacheSim_read (booted 5 64 32 2 True) 32)) = Some IndexError \<and>
   map (\<lambda>b. (occupied b, tag b)) (set_blocks (booted 5 64 32 2 True) 0) =
     [(False, - 1), (False, - 1)] \<and>
   map (\<lambda>b. (occupied b, tag b)) (set_blocks (snd (CacheSim_read (booted 5 64 32 2 True) 32)) 0) =
     [(True, 1), (False, - 1)] \<and>
   field (fst (CacheSim_read (snd (CacheSim_read (booted 5 64 32 2 True) 32)) 32)) ''hit_or_miss'' =
     Some (PStr ''hit'') \<and>
   raised (fst (CacheSim_read (booted 5 64 32 2 True) 34)) = Some AssertionError \<and>
   raised (fst (CacheSim_read (booted 5 64 32 2 True) 36)) = Some AssertionError \<and>
   \<not> isl (CacheSim_init 7 32 16 1 True) \<and>
   raised (fst (CacheSim_read (booted 7 32 16 1 True) 0)) = Some IndexError"
  by code_simp

text \<open>
  C9. Claimed: the position of a tag in the tracker encodes recency, index 0 the least
  recently used of a full set. Scenario: 7-bit addresses, one set of two 32-bit blocks;
  \<open>read(0)\<close>, \<open>read(32)\<close>, \<open>write(0, 9)\<close>. The write is the latest access and its tag 0
  sits at index 0; the next miss, \<open>read(64)\<close>, evicts tag 0 and keeps tag 1.
\<close>

theorem tracker_front_is_latest_written_tag:
  "\<not> isl (CacheSim_init 7 64 32 2 True) \<and>
   field (last (fst (run_ops (booted 7 64 32 2 True) [Read 0, Read 32, Write 0 9]))) ''tag'' =
     Some (PInt 0) \<and>
   hd (set_queue (snd (run_ops (booted 7 64 32 2 True) [Read 0, Read 32, Write 0 9])) 0) = 0 \<and>
   field (last (fst (run_ops (booted 7 64 32 2 True) [Read 0, Read 32, Write 0 9, Read 64])))
         ''replace_details'' =
     Some (PDict [(''evict_tag'', PInt 0), (''evict_index'', PInt 0)]) \<and>
   set_queue (snd (run_ops (booted 7 64 32 2 True) [Read 0, Read 32, Write 0 9, Read 64])) 0 = [1, 2]"
  by code_simp

end
